theory Spec2Isabelle
  imports Main "HOL-Library.Word" "HOL-Library.Log_Nat"
begin

section \<open>JavaScript numbers and typed arrays\<close>

text \<open>
  The image utilities work on a \<^verbatim>\<open>Uint8ClampedArray\<close> of interleaved RGBA bytes and on
  an \<^verbatim>\<open>Int32Array\<close> holding the summed-area table. Bytes are \<open>8 word\<close>, table cells
  are \<open>32 word\<close> read back as two's complement. A read outside a typed array gives
  \<^verbatim>\<open>undefined\<close>, which turns every arithmetic result into \<^verbatim>\<open>NaN\<close>: both are \<open>None\<close>.
  A write outside a typed array is ignored, which is what \<open>xs[i := v]\<close> does.
\<close>

type_synonym u8 = "8 word"
type_synonym i32 = "32 word"

text \<open>
  Numbers are IEEE doubles. The integer sums of the program stay far below \<open>2 ^ 53\<close> and
  are exact, so they are \<open>int\<close>. Where the program divides, subtracts a quotient or
  multiplies by a decimal constant, the result is rounded to the nearest double, ties to
  the even mantissa: \<open>fl53\<close> on rationals (all values of the program are in the normal
  range of doubles). \<open>rhe\<close> rounds to the nearest integer, ties to even, and
  \<open>exponent x\<close> is the binary exponent of \<open>x\<close>, the \<open>e\<close> with \<open>2 ^ e \<le> \<bar>x\<bar> < 2 ^ (e + 1)\<close>.
  The window size and the threshold constant are integers, as the configuration has them.
\<close>

definition rhe :: "rat \<Rightarrow> int" where
  "rhe x = (let f = \<lfloor>x\<rfloor>; d = x - of_int f in
     if d < 1 / 2 then f else if 1 / 2 < d then f + 1 else if even f then f else f + 1)"

definition exponent :: "rat \<Rightarrow> int" where
  "exponent x = (case quotient_of \<bar>x\<bar> of (a, b) \<Rightarrow>
     let d = bitlen a - bitlen b in if power_int 2 d \<le> \<bar>x\<bar> then d else d - 1)"

definition fl53 :: "rat \<Rightarrow> rat" where
  "fl53 x = (if x = 0 then 0 else
     let u = power_int 2 (exponent x - 52) in of_int (rhe (x / u)) * u)"

definition jadd :: "int option \<Rightarrow> int option \<Rightarrow> int option" where
  "jadd a b = (case a of None \<Rightarrow> None | Some x \<Rightarrow> (case b of None \<Rightarrow> None | Some y \<Rightarrow> Some (x + y)))"

definition jsub :: "int option \<Rightarrow> int option \<Rightarrow> int option" where
  "jsub a b = (case a of None \<Rightarrow> None | Some x \<Rightarrow> (case b of None \<Rightarrow> None | Some y \<Rightarrow> Some (x - y)))"

text \<open>\<^verbatim>\<open>sum / count\<close>; the program never divides by zero (lemma \<open>count_pos\<close>).\<close>

definition jdiv :: "int option \<Rightarrow> int \<Rightarrow> rat option" where
  "jdiv s n = (case s of None \<Rightarrow> None
     | Some k \<Rightarrow> if n = 0 then None else Some (fl53 (of_int k / of_int n)))"

text \<open>\<^verbatim>\<open>mean - constant\<close>\<close>

definition jsubc :: "rat option \<Rightarrow> int \<Rightarrow> rat option" where
  "jsubc m c = (case m of None \<Rightarrow> None | Some q \<Rightarrow> Some (fl53 (q - of_int c)))"

text \<open>\<^verbatim>\<open>value > t\<close>: false as soon as one side is \<^verbatim>\<open>undefined\<close> or \<^verbatim>\<open>NaN\<close>.\<close>

definition jgt :: "int option \<Rightarrow> rat option \<Rightarrow> bool" where
  "jgt v t = (case v of None \<Rightarrow> False | Some a \<Rightarrow> (case t of None \<Rightarrow> False | Some b \<Rightarrow> b < of_int a))"

definition rd8 :: "u8 list \<Rightarrow> nat \<Rightarrow> int option" where
  "rd8 d i = (if i < length d then Some (uint (d ! i)) else None)"

definition rd32 :: "i32 list \<Rightarrow> nat \<Rightarrow> int option" where
  "rd32 a i = (if i < length a then Some (sint (a ! i)) else None)"

text \<open>The same reads where the index expression can be negative.\<close>

definition rd8i :: "u8 list \<Rightarrow> int \<Rightarrow> int option" where
  "rd8i d i = (if i < 0 then None else rd8 d (nat i))"

definition rd32i :: "i32 list \<Rightarrow> int \<Rightarrow> int option" where
  "rd32i a i = (if i < 0 then None else rd32 a (nat i))"

text \<open>Storing into an \<^verbatim>\<open>Int32Array\<close>: \<^verbatim>\<open>NaN\<close> becomes 0, an integer is taken modulo \<open>2 ^ 32\<close>.\<close>

definition toInt32 :: "int option \<Rightarrow> i32" where
  "toInt32 v = (case v of None \<Rightarrow> 0 | Some k \<Rightarrow> word_of_int k)"

text \<open>
  Storing into a \<^verbatim>\<open>Uint8ClampedArray\<close>: \<^verbatim>\<open>NaN\<close> becomes 0, the value is clamped to
  \<open>[0, 255]\<close> and rounded to the nearest integer, ties to even.
\<close>

definition toUint8Clamp :: "rat option \<Rightarrow> u8" where
  "toUint8Clamp v = (case v of None \<Rightarrow> 0
     | Some x \<Rightarrow>
        let c = min (max x 0) 255; f = \<lfloor>c\<rfloor> in
        if of_int f + 1 / 2 < c then word_of_int (f + 1)
        else if c < of_int f + 1 / 2 then word_of_int f
        else if even f then word_of_int f else word_of_int (f + 1))"

section \<open>computeIntegralImage\<close>

text \<open>
  One iteration of the inner loop: the state is the running row sum and the table.
\<close>

definition integralStep ::
  "u8 list \<Rightarrow> nat \<Rightarrow> nat \<Rightarrow> nat \<Rightarrow> int option \<times> i32 list \<Rightarrow> int option \<times> i32 list" where
  "integralStep data width y x st = (case st of (rowSum, integral) \<Rightarrow>
     let i = y * width + x;
         sum' = jadd rowSum (rd8 data (i * 4))
     in if y = 0 then (sum', integral[i := toInt32 sum'])
        else (sum', integral[i := toInt32 (jadd (rd32 integral ((y - 1) * width + x)) sum')]))"

definition integralRow :: "u8 list \<Rightarrow> nat \<Rightarrow> nat \<Rightarrow> i32 list \<Rightarrow> i32 list" where
  "integralRow data width y integral =
     snd (fold (integralStep data width y) [0..<width] (Some 0, integral))"

definition computeIntegralImage :: "u8 list \<Rightarrow> nat \<Rightarrow> nat \<Rightarrow> i32 list" where
  "computeIntegralImage data width height =
     fold (integralRow data width) [0..<height] (replicate (width * height) 0)"

section \<open>applyAdaptiveThreshold\<close>

text \<open>
  The inclusion-exclusion sum \<^verbatim>\<open>D + A - B - C\<close> of the rectangle \<open>(x1, y1) - (x2, y2)\<close>,
  with the corners left of column 0 or above row 0 taken as 0.
\<close>

definition windowSum :: "i32 list \<Rightarrow> nat \<Rightarrow> int \<Rightarrow> int \<Rightarrow> int \<Rightarrow> int \<Rightarrow> int option" where
  "windowSum integral width x1 y1 x2 y2 =
     (let A = (if x1 > 0 \<and> y1 > 0 then rd32i integral ((y1 - 1) * int width + (x1 - 1)) else Some 0);
          B = (if y1 > 0 then rd32i integral ((y1 - 1) * int width + x2) else Some 0);
          C = (if x1 > 0 then rd32i integral (y2 * int width + (x1 - 1)) else Some 0);
          D = rd32i integral (y2 * int width + x2)
      in jsub (jsub (jadd D A) B) C)"

text \<open>The window of pixel \<open>(x, y)\<close>, clamped to the image: \<open>(x1, y1, x2, y2)\<close>.\<close>

definition window :: "nat \<Rightarrow> nat \<Rightarrow> int \<Rightarrow> nat \<Rightarrow> nat \<Rightarrow> int \<times> int \<times> int \<times> int" where
  "window width height halfWindow x y =
     (max (int x - halfWindow) 0, max (int y - halfWindow) 0,
      min (int x + halfWindow) (int width - 1), min (int y + halfWindow) (int height - 1))"

definition windowCount :: "int \<times> int \<times> int \<times> int \<Rightarrow> int" where
  "windowCount r = (case r of (x1, y1, x2, y2) \<Rightarrow> (x2 - x1 + 1) * (y2 - y1 + 1))"

text \<open>\<^verbatim>\<open>mean = sum / count\<close> for pixel \<open>(x, y)\<close>.\<close>

definition localMean :: "i32 list \<Rightarrow> nat \<Rightarrow> nat \<Rightarrow> int \<Rightarrow> nat \<Rightarrow> nat \<Rightarrow> rat option" where
  "localMean integral width height halfWindow x y =
     (case window width height halfWindow x y of (x1, y1, x2, y2) \<Rightarrow>
        jdiv (windowSum integral width x1 y1 x2 y2) (windowCount (x1, y1, x2, y2)))"

text \<open>\<^verbatim>\<open>binary = value > (mean - constant) ? 255 : 0\<close>\<close>

definition binaryValue ::
  "u8 list \<Rightarrow> i32 list \<Rightarrow> nat \<Rightarrow> nat \<Rightarrow> int \<Rightarrow> int \<Rightarrow> nat \<Rightarrow> nat \<Rightarrow> u8" where
  "binaryValue data integral width height halfWindow constant x y =
     (let mean = localMean integral width height halfWindow x y;
          idx = (y * width + x) * 4;
          v = rd8 data idx
      in if jgt v (jsubc mean constant) then 255 else 0)"

definition thresholdStep ::
  "u8 list \<Rightarrow> i32 list \<Rightarrow> nat \<Rightarrow> nat \<Rightarrow> int \<Rightarrow> int \<Rightarrow> nat \<Rightarrow> nat \<Rightarrow> u8 list \<Rightarrow> u8 list" where
  "thresholdStep data integral width height halfWindow constant y x output =
     (let idx = (y * width + x) * 4;
          binary = binaryValue data integral width height halfWindow constant x y
      in output[idx := binary, idx + 1 := binary, idx + 2 := binary, idx + 3 := 255])"

text \<open>
  The output array starts as zeros of the length of \<open>data\<close> and replaces \<open>data\<close> at the
  end (\<^verbatim>\<open>data.set(output)\<close>), so the function returns it.
\<close>

definition applyAdaptiveThreshold :: "u8 list \<Rightarrow> nat \<Rightarrow> nat \<Rightarrow> int \<Rightarrow> int \<Rightarrow> u8 list" where
  "applyAdaptiveThreshold data width height windowSize constant =
     (let integral = computeIntegralImage data width height;
          halfWindow = windowSize div 2
      in fold (\<lambda>y output. fold (thresholdStep data integral width height halfWindow constant y)
                 [0..<width] output)
           [0..<height] (replicate (length data) 0))"

section \<open>applyMedianFilter\<close>

text \<open>
  \<^verbatim>\<open>neighbors.sort((a, b) => a - b)\<close>: the numbers ascending, then the \<^verbatim>\<open>undefined\<close>
  entries.
\<close>

definition sortNumeric :: "int option list \<Rightarrow> int option list" where
  "sortNumeric ns = map Some (sort (concat (map (\<lambda>v. case v of None \<Rightarrow> [] | Some k \<Rightarrow> [k]) ns)))
     @ filter (\<lambda>v. v = None) ns"

definition neighborhood :: "u8 list \<Rightarrow> nat \<Rightarrow> nat \<Rightarrow> nat \<Rightarrow> int option list" where
  "neighborhood copy width y x =
     concat (map (\<lambda>ky. map (\<lambda>kx. rd8i copy (((int y + ky) * int width + (int x + kx)) * 4))
                   [- 1, 0, 1]) [- 1, 0, 1])"

definition medianValue :: "u8 list \<Rightarrow> nat \<Rightarrow> nat \<Rightarrow> nat \<Rightarrow> u8" where
  "medianValue copy width y x =
     toUint8Clamp (map_option of_int (sortNumeric (neighborhood copy width y x) ! 4))"

definition medianStep :: "u8 list \<Rightarrow> nat \<Rightarrow> nat \<Rightarrow> nat \<Rightarrow> u8 list \<Rightarrow> u8 list" where
  "medianStep copy width y x data =
     (let median = medianValue copy width y x;
          i = (y * width + x) * 4
      in data[i := median, i + 1 := median, i + 2 := median])"

definition applyMedianFilter :: "u8 list \<Rightarrow> nat \<Rightarrow> nat \<Rightarrow> u8 list" where
  "applyMedianFilter data width height =
     fold (\<lambda>y d. fold (medianStep data width y) [1..<width - 1] d) [1..<height - 1] data"

section \<open>preprocessImage\<close>

text \<open>
  An optional property of the options object: absent, or present with a value.
  \<^verbatim>\<open>PreprocessOptions\<close> is an interface, so an object that has further properties (a
  caller's \<^verbatim>\<open>windowSize\<close>, say) is assignable to it: they are the extension slot of the
  record, \<open>'a PreprocessOptions_scheme\<close>. The spread copies them into the configuration,
  where nothing reads them.
\<close>

datatype 'a optional = Absent | Undefined | Given 'a

record PreprocessOptions =
  grayscale :: "bool optional"
  binarize :: "bool optional"
  denoise :: "bool optional"
  upscale :: "bool optional"

text \<open>
  \<^verbatim>\<open>{ grayscale: true, binarize: true, denoise: false, upscale: true, ...options }\<close>:
  every property present in \<open>options\<close> replaces the default, also when its value is
  \<^verbatim>\<open>undefined\<close>. The fields of the configuration are only tested for truthiness.
\<close>

record config =
  cfg_grayscale :: bool
  cfg_binarize :: bool
  cfg_denoise :: bool
  cfg_upscale :: bool

definition spread :: "bool \<Rightarrow> bool optional \<Rightarrow> bool" where
  "spread dflt p = (case p of Absent \<Rightarrow> dflt | Undefined \<Rightarrow> False | Given b \<Rightarrow> b)"

definition noOptions :: PreprocessOptions where
  "noOptions = \<lparr>grayscale = Absent, binarize = Absent, denoise = Absent, upscale = Absent\<rparr>"

definition mkConfig :: "PreprocessOptions option \<Rightarrow> config" where
  "mkConfig options =
     (let opts = (case options of None \<Rightarrow> noOptions | Some p \<Rightarrow> p)
      in \<lparr>cfg_grayscale = spread True (grayscale opts),
          cfg_binarize = spread True (binarize opts),
          cfg_denoise = spread False (denoise opts),
          cfg_upscale = spread True (upscale opts)\<rparr>)"

definition upscaleDims :: "config \<Rightarrow> nat \<Rightarrow> nat \<Rightarrow> nat \<times> nat" where
  "upscaleDims cfg width height =
     (if cfg_upscale cfg \<and> (width < 1500 \<or> height < 1500) then (width * 2, height * 2)
      else (width, height))"

text \<open>
  The luminance expression \<^verbatim>\<open>0.299 * r + 0.587 * g + 0.114 * b\<close>, evaluated left to
  right in doubles.
\<close>

definition luminance :: "int option \<Rightarrow> int option \<Rightarrow> int option \<Rightarrow> rat option" where
  "luminance r g b =
     (case r of None \<Rightarrow> None | Some r' \<Rightarrow>
      (case g of None \<Rightarrow> None | Some g' \<Rightarrow>
       (case b of None \<Rightarrow> None | Some b' \<Rightarrow>
          Some (fl53 (fl53 (fl53 (fl53 (299 / 1000) * of_int r') + fl53 (fl53 (587 / 1000) * of_int g'))
                  + fl53 (fl53 (114 / 1000) * of_int b'))))))"

definition grayStep :: "nat \<Rightarrow> u8 list \<Rightarrow> u8 list" where
  "grayStep p data =
     (let i = p * 4;
          gray = toUint8Clamp (luminance (rd8 data i) (rd8 data (i + 1)) (rd8 data (i + 2)))
      in data[i + 2 := gray, i + 1 := gray, i := gray])"

text \<open>\<^verbatim>\<open>for (let i = 0; i < data.length; i += 4)\<close>\<close>

definition grayscaleConvert :: "u8 list \<Rightarrow> u8 list" where
  "grayscaleConvert data = fold grayStep [0..<(length data + 3) div 4] data"

text \<open>The three stages on the pixel buffer, in the order of the source.\<close>

definition runStages :: "config \<Rightarrow> u8 list \<Rightarrow> nat \<Rightarrow> nat \<Rightarrow> u8 list" where
  "runStages cfg data width height =
     (let d1 = (if cfg_grayscale cfg \<or> cfg_binarize cfg then grayscaleConvert data else data);
          d2 = (if cfg_denoise cfg then applyMedianFilter d1 width height else d1)
      in if cfg_binarize cfg then applyAdaptiveThreshold d2 width height 41 15 else d2)"

text \<open>
  The browser around the pipeline: decoding the file into an image (\<open>None\<close> when the
  image element reports an error), whether a 2D context is available, the bitmap of the
  canvas after the image was drawn at the canvas size, whether the pixels of a canvas of
  that size can be read back, whether \<^verbatim>\<open>new Int32Array(n)\<close> and
  \<^verbatim>\<open>new Uint8ClampedArray(n)\<close> return an array (they throw when the memory is not to be
  had), and encoding the canvas as a data URL.
\<close>

type_synonym bytes = "u8 list"

datatype image = Image nat nat "u8 list"

fun imgWidth :: "image \<Rightarrow> nat" where
  "imgWidth (Image w h px) = w"

fun imgHeight :: "image \<Rightarrow> nat" where
  "imgHeight (Image w h px) = h"

record browser =
  decode :: "bytes \<Rightarrow> image option"
  getContext :: bool
  drawImage :: "image \<Rightarrow> nat \<Rightarrow> nat \<Rightarrow> u8 list"
  readable :: "nat \<Rightarrow> nat \<Rightarrow> bool"
  newInt32Array :: "nat \<Rightarrow> bool"
  newUint8ClampedArray :: "nat \<Rightarrow> bool"
  toDataURL :: "nat \<Rightarrow> nat \<Rightarrow> u8 list \<Rightarrow> string"

text \<open>
  \<^verbatim>\<open>ctx.getImageData(0, 0, width, height)\<close> throws when the width or the height is 0
  and when the browser cannot read back a canvas of that size; \<open>None\<close> is the exception.
\<close>

definition getImageData :: "browser \<Rightarrow> nat \<Rightarrow> nat \<Rightarrow> u8 list \<Rightarrow> u8 list option" where
  "getImageData env width height bitmap =
     (if width = 0 \<or> height = 0 then None
      else if readable env width height then Some bitmap else None)"

text \<open>
  The typed arrays the stages allocate: applyMedianFilter a copy of the buffer,
  applyAdaptiveThreshold the integral image of \<open>width * height\<close> cells and an output of
  the length of the buffer. \<open>allocationFails\<close> holds when one of these allocations throws;
  the stages before it have only changed \<open>data\<close>, which nothing else sees.
\<close>

definition allocationFails :: "browser \<Rightarrow> config \<Rightarrow> nat \<Rightarrow> nat \<Rightarrow> nat \<Rightarrow> bool" where
  "allocationFails env cfg len width height =
     (if cfg_denoise cfg \<and> \<not> newUint8ClampedArray env len then True
      else if cfg_binarize cfg
        then \<not> (newInt32Array env (width * height) \<and> newUint8ClampedArray env len)
      else False)"

text \<open>
  What becomes of the promise: resolved with a URL of the original file or with the
  encoded canvas, rejected (only \<^verbatim>\<open>img.onerror\<close> calls \<^verbatim>\<open>reject\<close>), or never settled:
  an exception thrown inside \<^verbatim>\<open>img.onload\<close> is caught by nothing, and neither
  \<^verbatim>\<open>resolve\<close> nor \<^verbatim>\<open>reject\<close> is called.
\<close>

datatype resolved = ObjectURL bytes | DataURL string

datatype outcome = Resolved resolved | Rejected | Pending

definition preprocessImage ::
  "browser \<Rightarrow> bytes \<Rightarrow> 'a PreprocessOptions_scheme option \<Rightarrow> outcome" where
  "preprocessImage env imageFile options =
     (let cfg = mkConfig (map_option PreprocessOptions.truncate options) in
      case decode env imageFile of
        None \<Rightarrow> Rejected
      | Some img \<Rightarrow>
          (case upscaleDims cfg (imgWidth img) (imgHeight img) of (width, height) \<Rightarrow>
             if \<not> getContext env then Resolved (ObjectURL imageFile)
             else
               (case getImageData env width height (drawImage env img width height) of
                  None \<Rightarrow> Pending
                | Some data \<Rightarrow>
                    if allocationFails env cfg (length data) width height then Pending
                    else Resolved (DataURL (toDataURL env width height
                           (runStages cfg data width height))))))"

section \<open>handleFile\<close>



section \<open>Reference sums\<close>

text \<open>
  The first channel of pixel \<open>(x, y)\<close> and the brute-force sums the integral image stands
  for: over the rectangle \<open>(0, 0) - (x, y)\<close> and over \<open>(x1, y1) - (x2, y2)\<close>, corners included.
  \<open>wrap32\<close> is what an \<^verbatim>\<open>Int32Array\<close> cell reads back after an integer was stored.
\<close>

definition intensity :: "u8 list \<Rightarrow> nat \<Rightarrow> nat \<Rightarrow> nat \<Rightarrow> int" where
  "intensity data width x y = uint (data ! ((y * width + x) * 4))"

definition prefixSum :: "u8 list \<Rightarrow> nat \<Rightarrow> nat \<Rightarrow> nat \<Rightarrow> int" where
  "prefixSum data width x y = (\<Sum>j\<le>y. \<Sum>i\<le>x. intensity data width i j)"

definition rectSum :: "u8 list \<Rightarrow> nat \<Rightarrow> nat \<Rightarrow> nat \<Rightarrow> nat \<Rightarrow> nat \<Rightarrow> int" where
  "rectSum data width x1 y1 x2 y2 = (\<Sum>j\<in>{y1..y2}. \<Sum>i\<in>{x1..x2}. intensity data width i j)"

definition wrap32 :: "int \<Rightarrow> int" where
  "wrap32 k = sint (word_of_int k :: i32)"

text \<open>What the threshold loop leaves at index \<open>j\<close> of the output.\<close>

definition thresholdAt ::
  "u8 list \<Rightarrow> i32 list \<Rightarrow> nat \<Rightarrow> nat \<Rightarrow> int \<Rightarrow> int \<Rightarrow> nat \<Rightarrow> u8" where
  "thresholdAt data integral width height halfWindow constant j =
     (if j mod 4 = 3 then 255
      else binaryValue data integral width height halfWindow constant
             ((j div 4) mod width) ((j div 4) div width))"

text \<open>What the median loop writes at index \<open>j\<close> of the buffer, when it writes there.\<close>

definition medianAt :: "u8 list \<Rightarrow> nat \<Rightarrow> nat \<Rightarrow> u8" where
  "medianAt copy width j = medianValue copy width ((j div 4) div width) ((j div 4) mod width)"

text \<open>The byte the grayscale loop stores for pixel \<open>p\<close> of a buffer.\<close>

definition grayAt :: "u8 list \<Rightarrow> nat \<Rightarrow> u8" where
  "grayAt data p =
     toUint8Clamp (luminance (rd8 data (p * 4)) (rd8 data (p * 4 + 1)) (rd8 data (p * 4 + 2)))"

section \<open>Index arithmetic and loops that write pixels\<close>

lemma idx_lt:
  assumes "x < w" "y < h" shows "y * w + x < w * (h::nat)"
proof -
  have "y * w + x < y * w + w" using assms by simp
  also have "\<dots> = Suc y * w" by simp
  also have "\<dots> \<le> h * w" using assms by (intro mult_le_mono1) simp
  finally show ?thesis by (simp add: mult.commute)
qed

lemma pixel_in:
  assumes "length d = 4 * (w * h)" "x < w" "y < h" "k < 4"
  shows "(y * w + x) * 4 + k < length d"
proof -
  have "y * w + x < w * h" using assms(2,3) by (rule idx_lt)
  then show ?thesis using assms(1,4) by simp
qed

lemma rd8_in: "i < length d \<Longrightarrow> rd8 d i = Some (uint (d ! i))"
  by (simp add: rd8_def)

lemma rd32_in: "i < length a \<Longrightarrow> rd32 a i = Some (sint (a ! i))"
  by (simp add: rd32_def)

lemma pixel_coords: "x < w \<Longrightarrow> (y * w + x) mod w = x \<and> (y * w + x) div w = (y::nat)"
  by simp

lemma quad_index: "j div 4 = m \<longleftrightarrow> (j = m * 4 \<or> j = m * 4 + 1 \<or> j = m * 4 + 2 \<or> j = m * 4 + 3)" for j m :: nat
  by presburger

lemma quad_div: "k < 4 \<Longrightarrow> (m * 4 + k) div 4 = m" for k m :: nat
  by simp

lemma quad_mod: "k < 4 \<Longrightarrow> (m * 4 + k) mod 4 = k" for k m :: nat
  by simp

lemma quad_Suc:
  "Suc (m * 4) div 4 = m" "Suc (m * 4) mod 4 = 1"
  "Suc (Suc (m * 4)) div 4 = m" "Suc (Suc (m * 4)) mod 4 = 2"
  by presburger+

lemma quad_cases:
  fixes j m :: nat
  obtains "j = m * 4" | "j = m * 4 + 1" | "j = m * 4 + 2" | "j = m * 4 + 3" | "j div 4 \<noteq> m"
  using quad_index [of j m] by blast

lemma quad_update_nth:
  assumes "j < length out"
  shows "out[m * 4 := a, m * 4 + 1 := a, m * 4 + 2 := a, m * 4 + 3 := b] ! j =
     (if j div 4 = m then (if j mod 4 = 3 then b else a) else out ! j)"
proof (cases j m rule: quad_cases)
  case 5
  then have "j \<noteq> m * 4" "j \<noteq> m * 4 + 1" "j \<noteq> m * 4 + 2" "j \<noteq> m * 4 + 3"
    by (auto simp only: quad_index)
  then show ?thesis using 5 by simp
qed (use assms in \<open>simp_all add: quad_Suc\<close>)

lemma triple_update_nth:
  assumes "j < length out"
  shows "out[m * 4 := a, m * 4 + 1 := a, m * 4 + 2 := a] ! j =
     (if j div 4 = m \<and> j mod 4 \<noteq> 3 then a else out ! j)"
proof (cases j m rule: quad_cases)
  case 5
  then have "j \<noteq> m * 4" "j \<noteq> m * 4 + 1" "j \<noteq> m * 4 + 2"
    by (auto simp only: quad_index)
  then show ?thesis using 5 by simp
qed (use assms in \<open>simp_all add: quad_Suc\<close>)

lemma gray_update_nth:
  assumes "j < length d"
  shows "d[m * 4 + 2 := a, m * 4 + 1 := a, m * 4 := a] ! j =
     (if j div 4 = m \<and> j mod 4 \<noteq> 3 then a else d ! j)"
proof (cases j m rule: quad_cases)
  case 5
  then have "j \<noteq> m * 4" "j \<noteq> m * 4 + 1" "j \<noteq> m * 4 + 2"
    by (auto simp only: quad_index)
  then show ?thesis using 5 by simp
qed (use assms in \<open>simp_all add: quad_Suc\<close>)

text \<open>
  A loop whose iterations each overwrite some cells of an array, with a value that
  depends on the cell only: afterwards a cell holds that value if some iteration wrote it,
  and its initial content otherwise.
\<close>

lemma fold_writes:
  assumes len: "\<And>x out. length (g x out) = length (out :: 'b list)"
    and wr: "\<And>x out j. x \<in> set xs \<Longrightarrow> j < length out \<Longrightarrow>
               g x out ! j = (if P x j then v j else out ! j)"
  shows "length (fold g xs out) = length out"
    and "j < length out \<Longrightarrow> fold g xs out ! j = (if \<exists>x\<in>set xs. P x j then v j else out ! j)"
proof -
  show l: "length (fold g xs out) = length out" for out
    by (induction xs arbitrary: out) (simp_all add: len)
  show "j < length out \<Longrightarrow> fold g xs out ! j = (if \<exists>x\<in>set xs. P x j then v j else out ! j)"
    using wr
  proof (induction xs arbitrary: out)
    case Nil
    then show ?case by simp
  next
    case (Cons a xs)
    have "fold g (a # xs) out ! j = fold g xs (g a out) ! j" by simp
    also have "\<dots> = (if \<exists>x\<in>set xs. P x j then v j else g a out ! j)"
      using Cons.prems by (intro Cons.IH) (simp_all add: len)
    also have "g a out ! j = (if P a j then v j else out ! j)"
      using Cons.prems by simp
    finally show ?case by auto
  qed
qed

section \<open>Rounding to doubles and to bytes\<close>

lemma rhe_le:
  assumes "x \<le> of_int m"
  shows "rhe x \<le> m"
proof (cases "x = of_int m")
  case True
  then show ?thesis by (simp add: rhe_def)
next
  case False
  with assms have "x < of_int m" by simp
  then have "\<lfloor>x\<rfloor> < m" by (simp add: floor_less_iff)
  then show ?thesis by (simp add: rhe_def Let_def)
qed

lemma rhe_ge:
  assumes "of_int m \<le> x"
  shows "m \<le> rhe x"
proof -
  have "m \<le> \<lfloor>x\<rfloor>" using assms by (simp add: le_floor_iff)
  then show ?thesis by (simp add: rhe_def Let_def)
qed

lemma rhe_err: "\<bar>rat_of_int (rhe z) - z\<bar> \<le> 1 / 2"
proof -
  define f where "f = \<lfloor>z\<rfloor>"
  have f: "of_int f \<le> z" "z < of_int f + 1"
    using floor_correct [of z] by (simp_all add: f_def)
  consider "z - of_int f < 1 / 2" | "1 / 2 < z - of_int f" | "z - of_int f = 1 / 2"
    by linarith
  then show ?thesis
  proof cases
    case 1
    then have "rhe z = f" by (simp add: rhe_def f_def)
    then show ?thesis using 1 f by simp
  next
    case 2
    then have "rhe z = f + 1" by (simp add: rhe_def f_def Let_def)
    then show ?thesis using 2 f by simp
  next
    case 3
    then have "rhe z = f \<or> rhe z = f + 1" by (simp add: rhe_def f_def Let_def)
    then show ?thesis using 3 by auto
  qed
qed

text \<open>
  The exponent is not too large; that is all the bounds below need of it.
\<close>

lemma exponent_le:
  assumes "x \<noteq> 0"
  shows "power_int 2 (exponent x) \<le> \<bar>x\<bar>"
proof -
  obtain a b where q: "quotient_of \<bar>x\<bar> = (a, b)" by (cases "quotient_of \<bar>x\<bar>")
  then have b: "0 < b" and x: "\<bar>x\<bar> = of_int a / of_int b"
    by (simp_all add: quotient_of_denom_pos quotient_of_div)
  have "0 < \<bar>x\<bar>" using assms by simp
  then have a: "0 < a" using b x by (simp add: zero_less_divide_iff)
  define d where "d = bitlen a - bitlen b"
  show ?thesis
  proof (cases "power_int 2 d \<le> \<bar>x\<bar>")
    case True
    then show ?thesis by (simp add: exponent_def q d_def Let_def)
  next
    case False
    have la: "1 \<le> bitlen a" and lb: "1 \<le> bitlen b"
      using a b by (simp_all add: bitlen_alt_def)
    have "(2::int) ^ nat (bitlen a - 1) \<le> a" using bitlen_bounds [OF a] by simp
    then have "rat_of_int (2 ^ nat (bitlen a - 1)) \<le> of_int a" by (simp only: of_int_le_iff)
    then have lo: "power_int 2 (bitlen a - 1) \<le> rat_of_int a"
      using la by (simp add: power_int_def)
    have "b < 2 ^ nat (bitlen b)" using bitlen_bounds [OF b] by simp
    then have "rat_of_int b < of_int (2 ^ nat (bitlen b))" by (simp only: of_int_less_iff)
    then have hi: "rat_of_int b \<le> power_int 2 (bitlen b)"
      using lb by (simp add: power_int_def)
    have d1: "d - 1 = (bitlen a - 1) - bitlen b" by (simp add: d_def)
    have "power_int 2 (d - 1) = power_int 2 (bitlen a - 1) / (power_int 2 (bitlen b) :: rat)"
      unfolding d1 by (rule power_int_diff) simp
    also have "\<dots> \<le> of_int a / power_int 2 (bitlen b)"
      using lo by (intro divide_right_mono) simp_all
    also have "\<dots> \<le> of_int a / of_int b"
      using hi a b by (intro divide_left_mono) simp_all
    finally have "power_int 2 (d - 1) \<le> rat_of_int a / of_int b" .
    moreover have "exponent x = d - 1" using False by (simp add: exponent_def q d_def Let_def)
    ultimately show ?thesis by (simp only: x)
  qed
qed

lemma fl53_nonpos:
  assumes "x \<le> 0"
  shows "fl53 x \<le> 0"
proof (cases "x = 0")
  case True
  then show ?thesis by (simp add: fl53_def)
next
  case False
  define u :: rat where "u = power_int 2 (exponent x - 52)"
  have u: "0 < u" by (simp add: u_def)
  have "x / u \<le> of_int 0" using assms u by (simp add: divide_le_0_iff)
  then have "rhe (x / u) \<le> 0" by (rule rhe_le)
  then have "of_int (rhe (x / u)) * u \<le> 0"
    using u by (simp add: mult_le_0_iff)
  then show ?thesis using False by (simp add: fl53_def Let_def u_def)
qed

lemma fl53_nonneg:
  assumes "0 \<le> x"
  shows "0 \<le> fl53 x"
proof (cases "x = 0")
  case True
  then show ?thesis by (simp add: fl53_def)
next
  case False
  define u :: rat where "u = power_int 2 (exponent x - 52)"
  have u: "0 < u" by (simp add: u_def)
  have "of_int 0 \<le> x / u" using assms u by simp
  then have "0 \<le> rhe (x / u)" by (rule rhe_ge)
  then have "0 \<le> of_int (rhe (x / u)) * u" using u by simp
  then show ?thesis using False by (simp add: fl53_def Let_def u_def)
qed

text \<open>
  Rounding to a double never crosses a small natural number, and moves a number of
  \<open>[0, 256]\<close> by at most \<open>2 ^ - 45\<close>.
\<close>

lemma fl53_le_nat:
  assumes "x \<le> of_nat k" and "k < 2 ^ 53"
  shows "fl53 x \<le> of_nat k"
proof (cases "x \<le> 0")
  case True
  then have "fl53 x \<le> 0" by (rule fl53_nonpos)
  then show ?thesis by (simp add: order_trans [where y = 0])
next
  case False
  then have pos: "0 < x" by simp
  define e where "e = exponent x"
  define u :: rat where "u = power_int 2 (e - 52)"
  have u: "0 < u" by (simp add: u_def)
  have "power_int 2 e \<le> x" using exponent_le [of x] pos by (simp add: e_def)
  also have "x \<le> of_nat k" by fact
  also have "(of_nat k :: rat) < of_nat (2 ^ 53)" using assms(2) by (simp only: of_nat_less_iff)
  finally have "power_int 2 e < (power_int 2 53 :: rat)" by simp
  then have "e < 53" by (rule power_int_le_imp_less_exp [rotated]) simp_all
  then have e: "e \<le> 52" by simp
  define n where "n = nat (52 - e)"
  have un: "u = 1 / 2 ^ n"
    using e by (simp add: u_def n_def power_int_def field_simps)
  have "x / u = x * 2 ^ n" by (simp add: un)
  also have "\<dots> \<le> of_nat k * 2 ^ n" using assms(1) by (intro mult_right_mono) simp_all
  also have "\<dots> = of_int (int (k * 2 ^ n))" by simp
  finally have "rhe (x / u) \<le> int (k * 2 ^ n)" by (rule rhe_le)
  then have "rat_of_int (rhe (x / u)) \<le> of_int (int (k * 2 ^ n))" by (simp only: of_int_le_iff)
  then have "of_int (rhe (x / u)) * u \<le> of_int (int (k * 2 ^ n)) * u"
    using u by (intro mult_right_mono) simp_all
  also have "\<dots> = of_nat k" by (simp add: un)
  finally show ?thesis using pos by (simp add: fl53_def Let_def u_def e_def)
qed

lemma fl53_err:
  assumes "0 \<le> x" "x \<le> 256"
  shows "\<bar>fl53 x - x\<bar> \<le> 1 / 2 ^ 45"
proof (cases "x = 0")
  case True
  then show ?thesis by (simp add: fl53_def)
next
  case False
  define e where "e = exponent x"
  define u :: rat where "u = power_int 2 (e - 52)"
  have u: "0 < u" by (simp add: u_def)
  have "power_int 2 e \<le> \<bar>x\<bar>" unfolding e_def using False by (rule exponent_le)
  also have "\<bar>x\<bar> \<le> power_int 2 8" using assms by simp
  finally have "e \<le> 8" by (rule power_int_le_imp_le_exp [rotated]) simp_all
  then have "u \<le> power_int 2 (- 44)"
    unfolding u_def by (intro power_int_increasing) simp_all
  then have u44: "u \<le> 1 / 2 ^ 44" by (simp add: power_int_minus_divide)
  have "fl53 x - x = (of_int (rhe (x / u)) - x / u) * u"
    using False u by (simp add: fl53_def Let_def u_def e_def algebra_simps)
  then have "\<bar>fl53 x - x\<bar> = \<bar>of_int (rhe (x / u)) - x / u\<bar> * u"
    using u by (simp add: abs_mult)
  also have "\<dots> \<le> (1 / 2) * u"
    using u rhe_err [of "x / u"] by (intro mult_right_mono) simp_all
  also have "\<dots> \<le> (1 / 2) * (1 / 2 ^ 44)"
    using u44 by (intro mult_left_mono) simp_all
  finally show ?thesis by simp
qed

lemma toUint8Clamp_byte:
  assumes "0 \<le> k" "k \<le> 255"
  shows "toUint8Clamp (Some (of_int k)) = word_of_int k"
proof -
  have "min (max (rat_of_int k) 0) 255 = of_int k" using assms by simp
  then show ?thesis by (simp add: toUint8Clamp_def Let_def)
qed

lemma toUint8Clamp_rhe: "toUint8Clamp (Some x) = word_of_int (rhe (min (max x 0) 255))"
proof -
  define c where "c = min (max x 0) 255"
  have "(of_int \<lfloor>c\<rfloor> + 1 / 2 < c) = (1 / 2 < c - of_int \<lfloor>c\<rfloor>)"
    "(c < of_int \<lfloor>c\<rfloor> + 1 / 2) = (c - of_int \<lfloor>c\<rfloor> < 1 / 2)"
    by linarith+
  then show ?thesis
    unfolding toUint8Clamp_def rhe_def option.case Let_def c_def [symmetric] by auto
qed

lemma toUint8Clamp_near:
  assumes "\<bar>v - E\<bar> \<le> \<eta>" "0 \<le> E" "E \<le> 255"
  shows "\<bar>rat_of_int (uint (toUint8Clamp (Some v))) - E\<bar> \<le> 1 / 2 + \<eta>"
proof -
  define c where "c = min (max v 0) 255"
  have c: "0 \<le> c" "c \<le> 255" by (simp_all add: c_def)
  have cE: "\<bar>c - E\<bar> \<le> \<eta>" using assms unfolding c_def by (auto simp: min_def max_def)
  define k where "k = rhe c"
  have "of_int 0 \<le> c" and "c \<le> of_int 255" using c by simp_all
  then have k: "0 \<le> k" "k \<le> 255" unfolding k_def by (simp_all only: rhe_ge rhe_le)
  then have "uint (word_of_int k :: u8) = k"
    by (simp add: uint_word_of_int take_bit_int_eq_self)
  then have "uint (toUint8Clamp (Some v)) = k"
    by (simp add: toUint8Clamp_rhe c_def k_def)
  moreover have "\<bar>rat_of_int k - c\<bar> \<le> 1 / 2" unfolding k_def by (rule rhe_err)
  then have "\<bar>rat_of_int k - E\<bar> \<le> 1 / 2 + \<eta>" using cE by linarith
  ultimately show ?thesis by simp
qed

section \<open>The integral image\<close>

lemma integralStep_eq:
  assumes "jadd s (rd8 data ((y * w + x) * 4)) = Some t"
    and "y \<noteq> 0 \<Longrightarrow> rd32 J ((y - 1) * w + x) = Some (sint a)"
  shows "integralStep data w y x (s, J) =
           (Some t, J[y * w + x := (if y = 0 then 0 else a) + word_of_int t])"
proof (cases "y = 0")
  case True
  then show ?thesis
    unfolding integralStep_def Let_def prod.case assms(1) by (simp add: toInt32_def)
next
  case False
  show ?thesis
    unfolding integralStep_def Let_def prod.case assms(1) assms(2)[OF False]
    using False by (simp add: toInt32_def jadd_def)
qed

text \<open>
  The inner loop, after \<open>n\<close> columns of row \<open>y\<close>: the running sum is the sum of the row
  so far, the cells of the row hold the cell above plus the row sum, every other cell is
  untouched.
\<close>

lemma integralRow_inv:
  assumes len: "length I = w * h" and y: "y < h" and d: "4 * (w * h) \<le> length data"
  shows "n \<le> w \<Longrightarrow> (case fold (integralStep data w y) [0..<n] (Some 0, I) of (s, J) \<Rightarrow>
      s = Some (\<Sum>i<n. intensity data w i y) \<and> length J = length I \<and>
      (\<forall>i<n. J ! (y * w + i) = (if y = 0 then 0 else I ! ((y - 1) * w + i))
                  + word_of_int (\<Sum>k\<le>i. intensity data w k y)) \<and>
      (\<forall>k. k < y * w \<or> y * w + n \<le> k \<longrightarrow> J ! k = I ! k))"
proof (induction n)
  case 0
  then show ?case by simp
next
  case (Suc n)
  obtain s J where sJ: "fold (integralStep data w y) [0..<n] (Some 0, I) = (s, J)"
    by (cases "fold (integralStep data w y) [0..<n] (Some 0, I)")
  from Suc sJ have s: "s = Some (\<Sum>i<n. intensity data w i y)"
    and lenJ: "length J = length I"
    and filled: "\<And>i. i < n \<Longrightarrow> J ! (y * w + i) = (if y = 0 then 0 else I ! ((y - 1) * w + i))
                  + word_of_int (\<Sum>k\<le>i. intensity data w k y)"
    and frame: "\<And>k. k < y * w \<or> y * w + n \<le> k \<Longrightarrow> J ! k = I ! k"
    by auto
  have nw: "n < w" using Suc.prems by simp
  have i_lt: "y * w + n < w * h" using nw y by (rule idx_lt)
  have rd: "rd8 data ((y * w + n) * 4) = Some (intensity data w n y)"
    unfolding intensity_def using i_lt d by (intro rd8_in) simp
  let ?s' = "(\<Sum>i<Suc n. intensity data w i y)"
  have s': "jadd s (rd8 data ((y * w + n) * 4)) = Some ?s'"
    unfolding s rd by (simp add: jadd_def)
  have s'': "?s' = (\<Sum>k\<le>n. intensity data w k y)"
    by (simp add: lessThan_Suc_atMost)
  let ?v = "(if y = 0 then 0 else I ! ((y - 1) * w + n)) + word_of_int ?s'"
  have step: "integralStep data w y n (s, J) = (Some ?s', J[y * w + n := ?v])"
  proof (rule integralStep_eq [OF s'])
    assume "y \<noteq> 0"
    have up: "(y - 1) * w + n < y * w"
    proof -
      have "(y - 1) * w + n < (y - 1) * w + w" using nw by simp
      also have "\<dots> = y * w" using \<open>y \<noteq> 0\<close> by (cases y) simp_all
      finally show ?thesis .
    qed
    have "(y - 1) * w + n < length J" using up i_lt lenJ len by simp
    then have "rd32 J ((y - 1) * w + n) = Some (sint (J ! ((y - 1) * w + n)))"
      by (rule rd32_in)
    also have "J ! ((y - 1) * w + n) = I ! ((y - 1) * w + n)" using up by (intro frame) simp
    finally show "rd32 J ((y - 1) * w + n) = Some (sint (I ! ((y - 1) * w + n)))" .
  qed
  have fold_eq: "fold (integralStep data w y) [0..<Suc n] (Some 0, I) = (Some ?s', J[y * w + n := ?v])"
    by (simp add: sJ step)
  have "\<forall>i<Suc n. (J[y * w + n := ?v]) ! (y * w + i) = (if y = 0 then 0 else I ! ((y - 1) * w + i))
                  + word_of_int (\<Sum>k\<le>i. intensity data w k y)"
  proof (intro allI impI)
    fix i assume "i < Suc n"
    show "(J[y * w + n := ?v]) ! (y * w + i) = (if y = 0 then 0 else I ! ((y - 1) * w + i))
                  + word_of_int (\<Sum>k\<le>i. intensity data w k y)"
    proof (cases "i = n")
      case True
      then show ?thesis using i_lt lenJ len s'' by simp
    next
      case False
      with \<open>i < Suc n\<close> have "i < n" by simp
      then show ?thesis using False filled by simp
    qed
  qed
  moreover have "\<forall>k. k < y * w \<or> y * w + Suc n \<le> k \<longrightarrow> (J[y * w + n := ?v]) ! k = I ! k"
    using frame by auto
  ultimately show ?case unfolding fold_eq by (simp add: lenJ)
qed

lemma integralRow_nth:
  assumes len: "length I = w * h" and y: "y < h" and d: "4 * (w * h) \<le> length data"
  shows "length (integralRow data w y I) = length I"
    and "x < w \<Longrightarrow> integralRow data w y I ! (y * w + x) =
           (if y = 0 then 0 else I ! ((y - 1) * w + x)) + word_of_int (\<Sum>k\<le>x. intensity data w k y)"
    and "k < y * w \<Longrightarrow> integralRow data w y I ! k = I ! k"
  using integralRow_inv [OF len y d, of w]
  by (auto simp: integralRow_def split: prod.splits)

lemma prefixSum_Suc:
  "prefixSum data w x (Suc y) = prefixSum data w x y + (\<Sum>k\<le>x. intensity data w k (Suc y))"
  by (simp add: prefixSum_def)

lemma prefixSum_0: "prefixSum data w x 0 = (\<Sum>k\<le>x. intensity data w k 0)"
  by (simp add: prefixSum_def)

lemma integral_inv:
  assumes d: "4 * (w * h) \<le> length data"
  shows "m \<le> h \<Longrightarrow> length (fold (integralRow data w) [0..<m] (replicate (w * h) 0)) = w * h \<and>
     (\<forall>y<m. \<forall>x<w. fold (integralRow data w) [0..<m] (replicate (w * h) 0) ! (y * w + x)
        = word_of_int (prefixSum data w x y))"
proof (induction m)
  case 0
  then show ?case by simp
next
  case (Suc m)
  let ?I = "fold (integralRow data w) [0..<m] (replicate (w * h) 0)"
  from Suc have len: "length ?I = w * h"
    and prev: "\<And>y x. y < m \<Longrightarrow> x < w \<Longrightarrow> ?I ! (y * w + x) = word_of_int (prefixSum data w x y)"
    by auto
  have m: "m < h" using Suc.prems by simp
  note row = integralRow_nth [OF len m d]
  have fold_eq: "fold (integralRow data w) [0..<Suc m] (replicate (w * h) 0) = integralRow data w m ?I"
    by simp
  have "\<forall>y<Suc m. \<forall>x<w. integralRow data w m ?I ! (y * w + x) = word_of_int (prefixSum data w x y)"
  proof (intro allI impI)
    fix y x assume yx: "y < Suc m" "x < w"
    show "integralRow data w m ?I ! (y * w + x) = word_of_int (prefixSum data w x y)"
    proof (cases "y = m")
      case True
      show ?thesis
      proof (cases m)
        case 0
        then show ?thesis using True row(2) [OF yx(2)] by (simp add: prefixSum_0)
      next
        case (Suc m')
        then have "?I ! ((m - 1) * w + x) = word_of_int (prefixSum data w x m')"
          using prev [of m' x] yx by simp
        then show ?thesis using True Suc row(2) [OF yx(2)] by (simp add: prefixSum_Suc)
      qed
    next
      case False
      then have ym: "y < m" using yx by simp
      have "y * w + x < m * w"
      proof -
        have "y * w + x < y * w + w" using yx by simp
        also have "\<dots> = Suc y * w" by simp
        also have "\<dots> \<le> m * w" using ym by (intro mult_le_mono1) simp
        finally show ?thesis .
      qed
      then show ?thesis using row(3) prev [OF ym yx(2)] by simp
    qed
  qed
  then show ?case unfolding fold_eq using row(1) len by simp
qed

lemma computeIntegralImage_length:
  "4 * (w * h) \<le> length data \<Longrightarrow> length (computeIntegralImage data w h) = w * h"
  using integral_inv [of w h data h] by (simp add: computeIntegralImage_def)

text \<open>
  Every cell of the table is the prefix sum modulo \<open>2 ^ 32\<close>.
\<close>

lemma computeIntegralImage_nth:
  "4 * (w * h) \<le> length data \<Longrightarrow> x < w \<Longrightarrow> y < h \<Longrightarrow>
     computeIntegralImage data w h ! (y * w + x) = word_of_int (prefixSum data w x y)"
  using integral_inv [of w h data h] by (simp add: computeIntegralImage_def)

lemma intensity_replicate:
  "(y * w + x) * 4 < n \<Longrightarrow> intensity (replicate n v) w x y = uint v"
  by (simp add: intensity_def)

lemma prefixSum_replicate:
  assumes "4 * (w * h) \<le> n" "x < w" "y < h"
  shows "prefixSum (replicate n v) w x y = uint v * int (Suc x) * int (Suc y)"
proof -
  have "intensity (replicate n v) w i j = uint v" if "i \<le> x" "j \<le> y" for i j
  proof -
    have "j * w + i < w * h" using that assms by (intro idx_lt) simp_all
    then show ?thesis using assms(1) by (intro intensity_replicate) simp
  qed
  then have "prefixSum (replicate n v) w x y = (\<Sum>j\<le>y. \<Sum>i\<le>x. uint v)"
    unfolding prefixSum_def by (intro sum.cong refl) simp
  also have "\<dots> = uint v * int (Suc x) * int (Suc y)" by (simp add: algebra_simps)
  finally show ?thesis .
qed

lemma intensity_range: "0 \<le> intensity data w x y" "intensity data w x y \<le> 255"
proof -
  show "0 \<le> intensity data w x y" by (simp add: intensity_def)
  have "uint (data ! ((y * w + x) * 4)) < 2 ^ LENGTH(8)" by (rule uint_lt2p)
  then show "intensity data w x y \<le> 255" by (simp add: intensity_def)
qed

lemma prefixSum_nonneg: "0 \<le> prefixSum data w x y"
  unfolding prefixSum_def by (intro sum_nonneg intensity_range)

lemma prefixSum_le: "prefixSum data w x y \<le> 255 * (int (Suc x) * int (Suc y))"
proof -
  have "prefixSum data w x y \<le> (\<Sum>j\<le>y. \<Sum>i\<le>x. 255)"
    unfolding prefixSum_def by (intro sum_mono intensity_range)
  also have "\<dots> = 255 * (int (Suc x) * int (Suc y))" by (simp add: algebra_simps)
  finally show ?thesis .
qed

lemma prefixSum_bound:
  assumes "x < w" "y < h"
  shows "prefixSum data w x y \<le> 255 * int (w * h)"
proof -
  have "Suc x * Suc y \<le> w * h" using assms by (intro mult_le_mono) simp_all
  then have "int (Suc x) * int (Suc y) \<le> int (w * h)"
    by (metis of_nat_mult of_nat_le_iff)
  then show ?thesis using prefixSum_le [of data w x y] by linarith
qed

lemma wrap32_id: "0 \<le> k \<Longrightarrow> k < 2 ^ 31 \<Longrightarrow> wrap32 k = k"
  unfolding wrap32_def by (simp add: sint_sbintrunc' signed_take_bit_int_eq_self)

lemma cell_read:
  assumes "4 * (w * h) \<le> length data" "x < w" "y < h"
  shows "rd32 (computeIntegralImage data w h) (y * w + x) = Some (wrap32 (prefixSum data w x y))"
proof -
  have "y * w + x < length (computeIntegralImage data w h)"
    using assms by (simp add: computeIntegralImage_length idx_lt)
  then show ?thesis
    using assms by (simp add: rd32_in computeIntegralImage_nth wrap32_def)
qed

text \<open>
  C1 (the table equals the brute-force prefix sums for every buffer): on a white page of
  3000 by 3000 pixels the sum over the whole image is 2295000000, above the largest value of
  an \<^verbatim>\<open>Int32Array\<close> cell, and the last cell of the table holds - 1999967296 instead.
  \<open>computeIntegralImage_nth\<close> gives every cell modulo \<open>2 ^ 32\<close>, and the cells are the
  prefix sums as long as \<open>255 * width * height < 2 ^ 31\<close> (\<open>cell_read\<close>, \<open>wrap32_id\<close>,
  \<open>prefixSum_bound\<close>). The wrapped cells reach the output: \<open>white_page_black_pixel\<close>.
\<close>

theorem computeIntegralImage_white_page_wraps:
  "prefixSum (replicate (4 * (3000 * 3000)) 255) 3000 2999 2999 = 2295000000 \<and>
   sint (computeIntegralImage (replicate (4 * (3000 * 3000)) 255) 3000 3000 ! (2999 * 3000 + 2999))
     = - 1999967296"
proof -
  have p: "prefixSum (replicate (4 * (3000 * 3000)) 255) 3000 2999 2999 = 2295000000"
    by (subst prefixSum_replicate [where h = 3000]) simp_all
  have "computeIntegralImage (replicate (4 * (3000 * 3000)) 255) 3000 3000 ! (2999 * 3000 + 2999)
          = word_of_int (prefixSum (replicate (4 * (3000 * 3000)) 255) 3000 2999 2999)"
    by (rule computeIntegralImage_nth) simp_all
  then show ?thesis unfolding p by simp
qed

section \<open>Window sums and means\<close>

lemma corner_index:
  "0 < b \<Longrightarrow> 0 < a \<Longrightarrow> (int b - 1) * int w + (int a - 1) = int ((b - 1) * w + (a - 1))"
  by (cases b; cases a) simp_all

lemma rd32i_nat: "rd32i I (int k) = rd32 I k"
  by (simp add: rd32i_def)

lemma windowSum_cells:
  assumes d: "4 * (w * h) \<le> length data" and a: "a2 < w" and b: "b2 < h"
    and a12: "a1 \<le> a2" and b12: "b1 \<le> b2"
  shows "windowSum (computeIntegralImage data w h) w (int a1) (int b1) (int a2) (int b2) =
     Some (wrap32 (prefixSum data w a2 b2)
           + (if 0 < a1 \<and> 0 < b1 then wrap32 (prefixSum data w (a1 - 1) (b1 - 1)) else 0)
           - (if 0 < b1 then wrap32 (prefixSum data w a2 (b1 - 1)) else 0)
           - (if 0 < a1 then wrap32 (prefixSum data w (a1 - 1) b2) else 0))"
proof -
  let ?I = "computeIntegralImage data w h"
  have e: "int b2 * int w + int a2 = int (b2 * w + a2)" by simp
  have D: "rd32i ?I (int b2 * int w + int a2) = Some (wrap32 (prefixSum data w a2 b2))"
    unfolding e rd32i_nat by (rule cell_read [OF d a b])
  have A: "rd32i ?I ((int b1 - 1) * int w + (int a1 - 1)) = Some (wrap32 (prefixSum data w (a1 - 1) (b1 - 1)))"
    if "0 < a1" "0 < b1"
  proof -
    have "a1 - 1 < w" "b1 - 1 < h" using a b a12 b12 by simp_all
    from cell_read [OF d this] show ?thesis
      unfolding corner_index [OF that(2) that(1)] rd32i_nat .
  qed
  have B: "rd32i ?I ((int b1 - 1) * int w + int a2) = Some (wrap32 (prefixSum data w a2 (b1 - 1)))"
    if "0 < b1"
  proof -
    have "b1 - 1 < h" using b b12 by simp
    moreover have e: "(int b1 - 1) * int w + int a2 = int ((b1 - 1) * w + a2)"
      using that by (cases b1) simp_all
    ultimately show ?thesis unfolding e rd32i_nat by (intro cell_read [OF d a])
  qed
  have C: "rd32i ?I (int b2 * int w + (int a1 - 1)) = Some (wrap32 (prefixSum data w (a1 - 1) b2))"
    if "0 < a1"
  proof -
    have "a1 - 1 < w" using a a12 by simp
    moreover have e: "int b2 * int w + (int a1 - 1) = int (b2 * w + (a1 - 1))"
      using that by (cases a1) simp_all
    ultimately show ?thesis unfolding e rd32i_nat by (intro cell_read [OF d _ b])
  qed
  show ?thesis
    unfolding windowSum_def Let_def D
    using A B C by (simp add: jadd_def jsub_def)
qed

lemma sum_ivl_diff:
  fixes g :: "nat \<Rightarrow> int"
  assumes "a \<le> b"
  shows "(\<Sum>i\<in>{a..b}. g i) = (\<Sum>i\<le>b. g i) - (if 0 < a then (\<Sum>i\<le>a - 1. g i) else 0)"
proof (cases a)
  case 0
  then show ?thesis by (simp add: atMost_atLeast0)
next
  case (Suc a')
  have "sum g {0..<Suc a'} + sum g {Suc a'..<Suc b} = sum g {0..<Suc b}"
    using assms Suc by (intro sum.atLeastLessThan_concat) simp_all
  then show ?thesis
    using Suc by (simp add: atMost_atLeast0 atLeastLessThanSuc_atLeastAtMost)
qed

lemma rectSum_prefix:
  assumes "a1 \<le> a2" "b1 \<le> b2"
  shows "rectSum data w a1 b1 a2 b2 =
           prefixSum data w a2 b2
           + (if 0 < a1 \<and> 0 < b1 then prefixSum data w (a1 - 1) (b1 - 1) else 0)
           - (if 0 < b1 then prefixSum data w a2 (b1 - 1) else 0)
           - (if 0 < a1 then prefixSum data w (a1 - 1) b2 else 0)"
proof -
  let ?f = "intensity data w"
  let ?row = "\<lambda>j. (\<Sum>i\<le>a2. ?f i j) - (if 0 < a1 then (\<Sum>i\<le>a1 - 1. ?f i j) else 0)"
  have "rectSum data w a1 b1 a2 b2 = (\<Sum>j\<in>{b1..b2}. ?row j)"
    unfolding rectSum_def using assms(1) by (intro sum.cong refl sum_ivl_diff)
  also have "\<dots> = (\<Sum>j\<le>b2. ?row j) - (if 0 < b1 then (\<Sum>j\<le>b1 - 1. ?row j) else 0)"
    using assms(2) by (rule sum_ivl_diff)
  also have "\<dots> = prefixSum data w a2 b2
           + (if 0 < a1 \<and> 0 < b1 then prefixSum data w (a1 - 1) (b1 - 1) else 0)
           - (if 0 < b1 then prefixSum data w a2 (b1 - 1) else 0)
           - (if 0 < a1 then prefixSum data w (a1 - 1) b2 else 0)"
    by (simp add: prefixSum_def sum_subtractf)
  finally show ?thesis .
qed

text \<open>
  As long as no cell wraps, inclusion-exclusion over the table gives the sum of the
  rectangle.
\<close>

lemma windowSum_rectSum:
  assumes d: "4 * (w * h) \<le> length data" and a: "a2 < w" and b: "b2 < h"
    and a12: "a1 \<le> a2" and b12: "b1 \<le> b2"
    and small: "255 * int (w * h) < 2 ^ 31"
  shows "windowSum (computeIntegralImage data w h) w (int a1) (int b1) (int a2) (int b2) =
     Some (rectSum data w a1 b1 a2 b2)"
proof -
  have id: "wrap32 (prefixSum data w x y) = prefixSum data w x y" if "x < w" "y < h" for x y
    using prefixSum_bound [OF that, of data] small prefixSum_nonneg [of data w x y]
    by (intro wrap32_id) simp_all
  have "a1 - 1 < w" "b1 - 1 < h" using a b a12 b12 by simp_all
  then show ?thesis
    unfolding windowSum_cells [OF d a b a12 b12] rectSum_prefix [OF a12 b12]
    using a b by (simp add: id)
qed

lemma rectSum_replicate:
  assumes "4 * (w * h) \<le> n" "a2 < w" "b2 < h" "a1 \<le> a2" "b1 \<le> b2"
  shows "rectSum (replicate n v) w a1 b1 a2 b2 = uint v * int (Suc a2 - a1) * int (Suc b2 - b1)"
proof -
  have "intensity (replicate n v) w i j = uint v" if "i \<in> {a1..a2}" "j \<in> {b1..b2}" for i j
  proof -
    have "j * w + i < w * h" using that assms by (intro idx_lt) simp_all
    then show ?thesis using assms(1) by (intro intensity_replicate) simp
  qed
  then have "rectSum (replicate n v) w a1 b1 a2 b2 = (\<Sum>j\<in>{b1..b2}. \<Sum>i\<in>{a1..a2}. uint v)"
    unfolding rectSum_def by (intro sum.cong refl) simp
  also have "\<dots> = uint v * int (Suc a2 - a1) * int (Suc b2 - b1)" by simp
  finally show ?thesis .
qed

lemma rectSum_bounds:
  "0 \<le> rectSum data w a1 b1 a2 b2"
  "rectSum data w a1 b1 a2 b2 \<le> 255 * (int (Suc a2 - a1) * int (Suc b2 - b1))"
proof -
  show "0 \<le> rectSum data w a1 b1 a2 b2"
    unfolding rectSum_def by (intro sum_nonneg intensity_range)
  have "rectSum data w a1 b1 a2 b2 \<le> (\<Sum>j\<in>{b1..b2}. \<Sum>i\<in>{a1..a2}. 255)"
    unfolding rectSum_def by (intro sum_mono intensity_range)
  also have "\<dots> = 255 * (int (Suc a2 - a1) * int (Suc b2 - b1))" by simp
  finally show "rectSum data w a1 b1 a2 b2 \<le> 255 * (int (Suc a2 - a1) * int (Suc b2 - b1))" .
qed

lemma window_nat:
  assumes "0 \<le> hw" "x < w" "y < h"
  shows "window w h hw x y =
     (int (x - nat hw), int (y - nat hw), int (min (x + nat hw) (w - 1)), int (min (y + nat hw) (h - 1)))"
  using assms by (auto simp: window_def max_def min_def)

text \<open>
  The divisor of the mean is positive for every pixel of the image and every window size.
\<close>

lemma count_pos:
  assumes "x < w" "y < h"
  shows "1 \<le> windowCount (window w h hw x y)"
proof -
  define p where "p = min (int x + hw) (int w - 1) - max (int x - hw) 0 + 1"
  define q where "q = min (int y + hw) (int h - 1) - max (int y - hw) 0 + 1"
  have "(1 \<le> p \<and> 1 \<le> q) \<or> (p \<le> - 1 \<and> q \<le> - 1)"
    using assms unfolding p_def q_def by (cases "0 \<le> hw") auto
  then have "1 \<le> p * q"
  proof
    assume "1 \<le> p \<and> 1 \<le> q"
    then have "1 * 1 \<le> p * q" by (intro mult_mono) simp_all
    then show ?thesis by simp
  next
    assume "p \<le> - 1 \<and> q \<le> - 1"
    then have "1 * 1 \<le> (- p) * (- q)" by (intro mult_mono) simp_all
    then show ?thesis by simp
  qed
  then show ?thesis by (simp add: windowCount_def window_def p_def q_def)
qed

text \<open>
  For a non-negative window size, as long as no cell wraps, the mean the threshold uses
  is the sum over the clamped window divided by its area.
\<close>

lemma localMean_rectSum:
  assumes len: "length data = 4 * (w * h)" and small: "255 * int (w * h) < 2 ^ 31"
    and hw: "0 \<le> hw" and x: "x < w" and y: "y < h"
  shows "localMean (computeIntegralImage data w h) w h hw x y =
     Some (fl53 (of_int (rectSum data w (x - nat hw) (y - nat hw)
                           (min (x + nat hw) (w - 1)) (min (y + nat hw) (h - 1)))
                 / of_int (int (Suc (min (x + nat hw) (w - 1)) - (x - nat hw))
                            * int (Suc (min (y + nat hw) (h - 1)) - (y - nat hw)))))"
proof -
  define a1 a2 b1 b2 where "a1 = x - nat hw" and "a2 = min (x + nat hw) (w - 1)"
    and "b1 = y - nat hw" and "b2 = min (y + nat hw) (h - 1)"
  have a: "a1 \<le> a2" "a2 < w" and b: "b1 \<le> b2" "b2 < h"
    using x y by (auto simp: a1_def a2_def b1_def b2_def)
  have win: "window w h hw x y = (int a1, int b1, int a2, int b2)"
    unfolding a1_def a2_def b1_def b2_def using hw x y by (rule window_nat)
  have d: "4 * (w * h) \<le> length data" using len by simp
  have s: "windowSum (computeIntegralImage data w h) w (int a1) (int b1) (int a2) (int b2)
      = Some (rectSum data w a1 b1 a2 b2)"
    using d a(2) b(2) a(1) b(1) small by (rule windowSum_rectSum)
  have c: "windowCount (int a1, int b1, int a2, int b2) = int (Suc a2 - a1) * int (Suc b2 - b1)"
    using a(1) b(1) by (simp add: windowCount_def of_nat_diff algebra_simps)
  define n where "n = int (Suc a2 - a1) * int (Suc b2 - b1)"
  have "0 < n" unfolding n_def using a(1) b(1) by (intro mult_pos_pos) simp_all
  then have "n \<noteq> 0" by simp
  then have nz: "int (Suc a2 - a1) * int (Suc b2 - b1) \<noteq> 0" unfolding n_def .
  have "localMean (computeIntegralImage data w h) w h hw x y =
      Some (fl53 (of_int (rectSum data w a1 b1 a2 b2) / of_int (int (Suc a2 - a1) * int (Suc b2 - b1))))"
    unfolding localMean_def win prod.case s c jdiv_def option.case if_not_P [OF nz] by (rule refl)
  then show ?thesis unfolding a1_def a2_def b1_def b2_def .
qed

lemma localMean_le_255:
  assumes len: "length data = 4 * (w * h)" and small: "255 * int (w * h) < 2 ^ 31"
    and hw: "0 \<le> hw" and x: "x < w" and y: "y < h"
  obtains m where "localMean (computeIntegralImage data w h) w h hw x y = Some m" "m \<le> 255"
proof -
  define a1 a2 b1 b2 where "a1 = x - nat hw" and "a2 = min (x + nat hw) (w - 1)"
    and "b1 = y - nat hw" and "b2 = min (y + nat hw) (h - 1)"
  define n where "n = int (Suc a2 - a1) * int (Suc b2 - b1)"
  define S where "S = rectSum data w a1 b1 a2 b2"
  have a: "a1 \<le> a2" and b: "b1 \<le> b2"
    using x y by (auto simp: a1_def a2_def b1_def b2_def)
  have n: "0 < n" unfolding n_def using a b by (intro mult_pos_pos) simp_all
  have "S \<le> 255 * n" unfolding S_def n_def by (rule rectSum_bounds)
  then have "rat_of_int S \<le> of_int (255 * n)" by (simp only: of_int_le_iff)
  then have "rat_of_int S / of_int n \<le> 255"
    using n by (simp add: divide_le_eq)
  then have "rat_of_int S / of_int n \<le> of_nat 255" by simp
  then have "fl53 (rat_of_int S / of_int n) \<le> of_nat 255" by (rule fl53_le_nat) simp
  moreover have "localMean (computeIntegralImage data w h) w h hw x y
      = Some (fl53 (rat_of_int S / of_int n))"
    unfolding S_def n_def a1_def a2_def b1_def b2_def using assms by (rule localMean_rectSum)
  ultimately show ?thesis using that by simp
qed

lemma white_window_sum:
  "windowSum (computeIntegralImage (replicate (4 * (3000 * 3000)) 255) 3000 3000) 3000
       2882 2882 2922 2922 = Some 4295395951"
proof -
  define d :: "u8 list" where "d = replicate (4 * (3000 * 3000)) 255"
  have len: "4 * (3000 * 3000) \<le> length d" by (simp add: d_def)
  have p: "prefixSum d 3000 x y = 255 * int (Suc x) * int (Suc y)" if "x < 3000" "y < 3000" for x y
    unfolding d_def using that by (subst prefixSum_replicate [where h = 3000]) simp_all
  have "windowSum (computeIntegralImage d 3000 3000) 3000 (int 2882) (int 2882) (int 2922) (int 2922)
      = Some 4295395951"
    by (subst windowSum_cells [OF len]) (simp_all add: p wrap32_def)
  then show ?thesis unfolding d_def by simp
qed

text \<open>
  C2 (the inclusion-exclusion quotient equals the brute-force mean for every rectangle
  inside the image): on the white page of 3000 by 3000 pixels the rectangle
  \<open>(2882, 2882) - (2922, 2922)\<close>, the window of pixel \<open>(2902, 2902)\<close> for
  \<open>windowSize = 41\<close>, holds 1681 pixels of intensity 255, sum 428655; three of the four
  corner cells have wrapped, and \<^verbatim>\<open>D + A - B - C\<close> is 4295395951. The two means differ.
  Where \<open>255 * width * height < 2 ^ 31\<close> the two sums are equal (\<open>windowSum_rectSum\<close>).
\<close>

theorem windowSum_white_page_wraps:
  "windowSum (computeIntegralImage (replicate (4 * (3000 * 3000)) 255) 3000 3000) 3000
       2882 2882 2922 2922 = Some 4295395951 \<and>
   rectSum (replicate (4 * (3000 * 3000)) 255) 3000 2882 2882 2922 2922 = 428655 \<and>
   windowCount (2882, 2882, 2922, 2922) = 1681 \<and>
   jdiv (Some 4295395951) 1681 \<noteq> jdiv (Some 428655) 1681"
proof -
  have "rectSum (replicate (4 * (3000 * 3000)) 255) 3000 2882 2882 2922 2922 = 428655"
    by (subst rectSum_replicate [where h = 3000]) simp_all
  moreover have "windowCount (2882, 2882, 2922, 2922) = 1681"
    by (simp add: windowCount_def)
  moreover have "jdiv (Some 4295395951) 1681 \<noteq> jdiv (Some 428655) 1681"
    by code_simp
  ultimately show ?thesis using white_window_sum by simp
qed

section \<open>The adaptive threshold\<close>

lemma thresholdStep_length: "length (thresholdStep D I w h hw c y x out) = length out"
  by (simp add: thresholdStep_def Let_def)

lemma thresholdStep_nth:
  assumes "x < w" "j < length out"
  shows "thresholdStep D I w h hw c y x out ! j =
     (if j div 4 = y * w + x then thresholdAt D I w h hw c j else out ! j)"
proof -
  have "thresholdAt D I w h hw c j =
      (if j mod 4 = 3 then 255 else binaryValue D I w h hw c x y)" if "j div 4 = y * w + x"
    using that assms(1) by (simp add: thresholdAt_def)
  then show ?thesis
    unfolding thresholdStep_def Let_def quad_update_nth [OF assms(2)] by simp
qed

lemma thresholdRow_nth:
  assumes "j < length out"
  shows "fold (thresholdStep D I w h hw c y) [0..<w] out ! j =
     (if \<exists>x\<in>set [0..<w]. j div 4 = y * w + x then thresholdAt D I w h hw c j else out ! j)"
  using assms
  by (intro fold_writes(2) [where P = "\<lambda>x j. j div 4 = y * w + x"] thresholdStep_length thresholdStep_nth)
     simp_all

lemma thresholdRow_length: "length (fold (thresholdStep D I w h hw c y) [0..<w] out) = length out"
  by (rule fold_writes(1) [where P = "\<lambda>x j. j div 4 = y * w + x"
        and v = "thresholdAt D I w h hw c"]) (simp_all add: thresholdStep_length thresholdStep_nth)

lemma applyAdaptiveThreshold_length:
  "length (applyAdaptiveThreshold data w h ws c) = length data"
proof -
  have "length (fold (\<lambda>y output. fold (thresholdStep data I w h hw c y) [0..<w] output) ys out) = length out"
    for I hw ys out
    by (induction ys arbitrary: out) (simp_all add: thresholdRow_length)
  then show ?thesis by (simp add: applyAdaptiveThreshold_def Let_def)
qed

text \<open>
  Channel \<open>k\<close> of pixel \<open>(x, y)\<close> after the two loops.
\<close>

lemma applyAdaptiveThreshold_nth:
  assumes "x < w" "y < h" "k < 4" "(y * w + x) * 4 + k < length data"
  shows "applyAdaptiveThreshold data w h ws c ! ((y * w + x) * 4 + k) =
     (if k = 3 then 255
      else binaryValue data (computeIntegralImage data w h) w h (ws div 2) c x y)"
proof -
  let ?I = "computeIntegralImage data w h"
  let ?P = "\<lambda>y j. \<exists>x\<in>set [0..<w]. j div 4 = y * w + x"
  define j where "j = (y * w + x) * 4 + k"
  have jd: "j div 4 = y * w + x" and jm: "j mod 4 = k"
    unfolding j_def using assms(3) by (simp_all only: quad_div quad_mod)
  have jl: "j < length data" using assms(4) by (simp only: j_def)
  have "fold (\<lambda>y output. fold (thresholdStep data ?I w h (ws div 2) c y) [0..<w] output)
          [0..<h] (replicate (length data) 0) ! j =
        (if \<exists>y\<in>set [0..<h]. ?P y j then thresholdAt data ?I w h (ws div 2) c j
         else replicate (length data) 0 ! j)"
    using jl
    by (intro fold_writes(2) [where P = ?P] thresholdRow_length thresholdRow_nth) simp_all
  moreover have "\<exists>y\<in>set [0..<h]. ?P y j"
    unfolding jd using assms(1,2) by (intro bexI [of _ y] bexI [of _ x]) simp_all
  moreover have "thresholdAt data ?I w h (ws div 2) c j =
      (if k = 3 then 255 else binaryValue data ?I w h (ws div 2) c x y)"
    using assms(1) by (simp add: thresholdAt_def jd jm)
  ultimately have "applyAdaptiveThreshold data w h ws c ! j =
      (if k = 3 then 255 else binaryValue data ?I w h (ws div 2) c x y)"
    by (simp add: applyAdaptiveThreshold_def Let_def)
  then show ?thesis unfolding j_def .
qed

lemma binaryValue_eq:
  assumes "(y * w + x) * 4 < length data"
  shows "binaryValue data I w h hw c x y =
     (if (case localMean I w h hw x y of None \<Rightarrow> False
          | Some mean \<Rightarrow> fl53 (mean - of_int c) < of_int (intensity data w x y))
      then 255 else 0)"
  using assms
  by (simp add: binaryValue_def Let_def rd8_in intensity_def jgt_def jsubc_def split: option.splits)

text \<open>
  The white page of 3000 by 3000 pixels, thresholded with the window and the constant of
  the pipeline: the colour channels of pixel \<open>(2902, 2902)\<close> become 0, because the
  quotient taken from the wrapped cells is far above 255.
\<close>

lemma white_page_threshold:
  assumes "k < 3"
  shows "applyAdaptiveThreshold (replicate (4 * (3000 * 3000)) 255) 3000 3000 41 15
           ! ((2902 * 3000 + 2902) * 4 + k) = 0"
proof -
  define d :: "u8 list" where "d = replicate (4 * (3000 * 3000)) 255"
  define I where "I = computeIntegralImage d 3000 3000"
  have k4: "k < 4" using assms by simp
  have ik: "(2902 * 3000 + 2902) * 4 + k < length d" using assms by (simp add: d_def)
  have w: "window 3000 3000 (41 div 2) 2902 2902 = (2882, 2882, 2922, 2922)"
    by (simp add: window_def)
  have s: "windowSum I 3000 2882 2882 2922 2922 = Some 4295395951"
    unfolding I_def d_def by (rule white_window_sum)
  have "jgt (Some 255) (jsubc (jdiv (Some 4295395951) (windowCount (2882, 2882, 2922, 2922))) 15) = False"
    by code_simp
  moreover have "rd8 d ((2902 * 3000 + 2902) * 4) = Some 255"
    by (simp add: rd8_def d_def)
  ultimately have "binaryValue d I 3000 3000 (41 div 2) 15 2902 2902 = 0"
    unfolding binaryValue_def localMean_def w prod.case s Let_def by simp
  moreover have "applyAdaptiveThreshold d 3000 3000 41 15 ! ((2902 * 3000 + 2902) * 4 + k) =
      (if k = 3 then 255 else binaryValue d I 3000 3000 (41 div 2) 15 2902 2902)"
    unfolding I_def by (rule applyAdaptiveThreshold_nth [OF _ _ k4 ik]) simp_all
  ultimately show ?thesis using assms unfolding d_def by simp
qed

text \<open>
  C3 (every pixel is white exactly when its intensity is strictly greater than the mean
  of its window minus the constant): on the white page of 3000 by 3000 pixels, with the
  pipeline's \<open>windowSize = 41\<close> and constant 15, pixel \<open>(2902, 2902)\<close> has intensity 255,
  its window \<open>(2882, 2882) - (2922, 2922)\<close> holds only intensities 255, so the mean is 255
  and \<open>255 > 255 - 15\<close>; the function writes 0 into its three colour channels. The
  integral image has wrapped there (\<open>white_window_sum\<close>). Below the bound
  \<open>255 * width * height < 2 ^ 31\<close> the rule holds (\<open>threshold_classification\<close>).
\<close>

theorem applyAdaptiveThreshold_white_page_black:
  "intensity (replicate (4 * (3000 * 3000)) 255) 3000 2902 2902 = 255 \<and>
   window 3000 3000 (41 div 2) 2902 2902 = (2882, 2882, 2922, 2922) \<and>
   rectSum (replicate (4 * (3000 * 3000)) 255) 3000 2882 2882 2922 2922
     = 255 * windowCount (2882, 2882, 2922, 2922) \<and>
   applyAdaptiveThreshold (replicate (4 * (3000 * 3000)) 255) 3000 3000 41 15
     ! ((2902 * 3000 + 2902) * 4) = 0 \<and>
   applyAdaptiveThreshold (replicate (4 * (3000 * 3000)) 255) 3000 3000 41 15
     ! ((2902 * 3000 + 2902) * 4 + 1) = 0 \<and>
   applyAdaptiveThreshold (replicate (4 * (3000 * 3000)) 255) 3000 3000 41 15
     ! ((2902 * 3000 + 2902) * 4 + 2) = 0"
proof -
  have "intensity (replicate (4 * (3000 * 3000)) 255) 3000 2902 2902 = 255"
    by (simp add: intensity_def)
  moreover have "window 3000 3000 (41 div 2) 2902 2902 = (2882, 2882, 2922, 2922)"
    by (simp add: window_def)
  moreover have "rectSum (replicate (4 * (3000 * 3000)) 255) 3000 2882 2882 2922 2922
      = 255 * windowCount (2882, 2882, 2922, 2922)"
    by (subst rectSum_replicate [where h = 3000]) (simp_all add: windowCount_def)
  moreover have "applyAdaptiveThreshold (replicate (4 * (3000 * 3000)) 255) 3000 3000 41 15
      ! ((2902 * 3000 + 2902) * 4) = 0"
    using white_page_threshold [of 0] by simp
  ultimately show ?thesis
    using white_page_threshold [of 1] white_page_threshold [of 2] by simp
qed

text \<open>
  The classification rule in terms of the mean the function computes: in a buffer of
  \<open>width * height\<close> pixels, applyAdaptiveThreshold writes 255 into the three colour
  channels of pixel \<open>(x, y)\<close> exactly when the original intensity of the pixel is
  strictly greater than \<^verbatim>\<open>mean - constant\<close>, and 0 otherwise, so equality is black; the
  opacity becomes 255. The mean is the quotient the function takes from its integral
  image over the clamped window; for a non-negative \<open>windowSize\<close> and
  \<open>255 * width * height < 2 ^ 31\<close> it is the sum of the intensities in the window
  divided by the area of the window. A uniform 3 by 3 buffer of intensity 128 with
  \<open>windowSize = 3\<close> becomes all white for constant 10 and all black for constant - 10.
\<close>

lemma threshold_classification:
  "(\<forall>data w h windowSize c x y.
      length data = 4 * (w * h) \<longrightarrow> x < w \<longrightarrow> y < h \<longrightarrow>
      (let out = applyAdaptiveThreshold data w h windowSize c;
           i = (y * w + x) * 4;
           white = (case localMean (computeIntegralImage data w h) w h (windowSize div 2) x y of
                      None \<Rightarrow> False
                    | Some mean \<Rightarrow> fl53 (mean - of_int c) < of_int (intensity data w x y));
           binary = (if white then 255 else 0)
       in out ! i = binary \<and> out ! (i + 1) = binary \<and> out ! (i + 2) = binary \<and> out ! (i + 3) = 255))
   \<and> (\<forall>data w h windowSize x y.
      length data = 4 * (w * h) \<longrightarrow> 255 * int (w * h) < 2 ^ 31 \<longrightarrow> 0 \<le> windowSize \<longrightarrow>
      x < w \<longrightarrow> y < h \<longrightarrow>
      (let r = nat (windowSize div 2);
           x1 = x - r; y1 = y - r; x2 = min (x + r) (w - 1); y2 = min (y + r) (h - 1)
       in localMean (computeIntegralImage data w h) w h (windowSize div 2) x y =
            Some (fl53 (of_int (rectSum data w x1 y1 x2 y2)
                        / of_int (int (Suc x2 - x1) * int (Suc y2 - y1))))))
   \<and> applyAdaptiveThreshold (concat (replicate 9 [128, 128, 128, 255])) 3 3 3 10
         = concat (replicate 9 [255, 255, 255, 255])
   \<and> applyAdaptiveThreshold (concat (replicate 9 [128, 128, 128, 255])) 3 3 3 (- 10)
         = concat (replicate 9 [0, 0, 0, 255])"
proof (intro conjI allI impI)
  fix data :: "u8 list" and w h x y :: nat and windowSize c :: int
  assume len: "length data = 4 * (w * h)" and x: "x < w" and y: "y < h"
  have i0: "(y * w + x) * 4 < length data" using pixel_in [OF len x y, of 0] by simp
  have nth: "applyAdaptiveThreshold data w h windowSize c ! ((y * w + x) * 4 + k) =
     (if k = 3 then 255
      else binaryValue data (computeIntegralImage data w h) w h (windowSize div 2) c x y)"
    if "k < 4" for k
    using x y that pixel_in [OF len x y that] by (rule applyAdaptiveThreshold_nth)
  show "let out = applyAdaptiveThreshold data w h windowSize c;
           i = (y * w + x) * 4;
           white = (case localMean (computeIntegralImage data w h) w h (windowSize div 2) x y of
                      None \<Rightarrow> False
                    | Some mean \<Rightarrow> fl53 (mean - of_int c) < of_int (intensity data w x y));
           binary = (if white then 255 else 0)
       in out ! i = binary \<and> out ! (i + 1) = binary \<and> out ! (i + 2) = binary \<and> out ! (i + 3) = 255"
    unfolding Let_def
    using nth [of 0] nth [of 1] nth [of 2] nth [of 3]
    by (simp add: binaryValue_eq [OF i0])
next
  fix data :: "u8 list" and w h x y :: nat and windowSize :: int
  assume "length data = 4 * (w * h)" "255 * int (w * h) < 2 ^ 31" "0 \<le> windowSize" "x < w" "y < h"
  moreover from \<open>0 \<le> windowSize\<close> have "0 \<le> windowSize div 2" by simp
  ultimately show "let r = nat (windowSize div 2);
           x1 = x - r; y1 = y - r; x2 = min (x + r) (w - 1); y2 = min (y + r) (h - 1)
       in localMean (computeIntegralImage data w h) w h (windowSize div 2) x y =
            Some (fl53 (of_int (rectSum data w x1 y1 x2 y2)
                        / of_int (int (Suc x2 - x1) * int (Suc y2 - y1))))"
    unfolding Let_def by (intro localMean_rectSum)
next
  show "applyAdaptiveThreshold (concat (replicate 9 [128, 128, 128, 255])) 3 3 3 10
         = concat (replicate 9 [255, 255, 255, 255])"
    by code_simp
next
  show "applyAdaptiveThreshold (concat (replicate 9 [128, 128, 128, 255])) 3 3 3 (- 10)
         = concat (replicate 9 [0, 0, 0, 255])"
    by code_simp
qed

lemma threshold_classification_3x3:
  "length (concat (replicate 9 [128, 128, 128, 255 :: u8])) = 4 * (3 * 3) \<and> (1 :: nat) < 3 \<and>
   255 * int (3 * 3) < 2 ^ 31 \<and>
   localMean (computeIntegralImage (concat (replicate 9 [128, 128, 128, 255])) 3 3) 3 3 (3 div 2) 1 1
     = Some (fl53 (of_int (rectSum (concat (replicate 9 [128, 128, 128, 255])) 3 0 0 2 2) / 9)) \<and>
   rectSum (concat (replicate 9 [128, 128, 128, 255])) 3 0 0 2 2 = 1152 \<and>
   intensity (concat (replicate 9 [128, 128, 128, 255])) 3 1 1 = 128 \<and>
   fl53 (fl53 (1152 / 9) - 10) < 128 \<and>
   applyAdaptiveThreshold (concat (replicate 9 [128, 128, 128, 255])) 3 3 3 10 ! 16 = 255"
proof -
  define d :: "u8 list" where "d = concat (replicate 9 [128, 128, 128, 255])"
  have len: "length d = 4 * (3 * 3)" unfolding d_def by code_simp
  have small: "255 * int (3 * 3) < 2 ^ 31" by simp
  have x: "(1 :: nat) < 3" by simp
  note t = threshold_classification
  have m: "localMean (computeIntegralImage d 3 3) 3 3 (3 div 2) 1 1
      = Some (fl53 (of_int (rectSum d 3 0 0 2 2) / 9))"
    using t [THEN conjunct2, THEN conjunct1, rule_format, OF len small _ x x, of 3]
    by (simp add: Let_def numeral_2_eq_2)
  have s: "rectSum d 3 0 0 2 2 = 1152" unfolding d_def by code_simp
  have v: "intensity d 3 1 1 = 128" unfolding d_def by code_simp
  have lt: "fl53 (fl53 (1152 / 9) - 10) < 128" by code_simp
  from t [THEN conjunct1, rule_format, OF len x x, of 3 10, unfolded Let_def m v s]
  have "applyAdaptiveThreshold d 3 3 3 10 ! 16 = 255"
    using lt by simp
  then show ?thesis using len m s v lt unfolding d_def by simp
qed

text \<open>
  C5 as stated (a second run with the same configuration gives the output of the first):
  on a row of five pixels with intensities 100, 20, 0, 20, 100, \<open>windowSize = 3\<close> and
  constant 10, the first run gives white, black, black, black, white; in that output the
  window of the middle pixel is all black, its mean is 0, and the second run turns the
  middle pixel white.
\<close>

theorem binarization_not_idempotent_counterexample:
  "applyAdaptiveThreshold
     [100, 100, 100, 255, 20, 20, 20, 255, 0, 0, 0, 255, 20, 20, 20, 255, 100, 100, 100, 255] 5 1 3 10
     = [255, 255, 255, 255, 0, 0, 0, 255, 0, 0, 0, 255, 0, 0, 0, 255, 255, 255, 255, 255] \<and>
   applyAdaptiveThreshold
     [255, 255, 255, 255, 0, 0, 0, 255, 0, 0, 0, 255, 0, 0, 0, 255, 255, 255, 255, 255] 5 1 3 10
     = [255, 255, 255, 255, 0, 0, 0, 255, 255, 255, 255, 255, 0, 0, 0, 255, 255, 255, 255, 255]"
  by code_simp

text \<open>
  C5, amended: with a positive constant and a non-negative \<open>windowSize\<close>, on a buffer of
  \<open>width * height\<close> pixels with \<open>255 * width * height < 2 ^ 31\<close>, a pixel that is white
  after one run of applyAdaptiveThreshold is white after a second run with the same
  configuration, and the second output has the length of the first; a black pixel can
  turn white.
\<close>

theorem white_stays_white:
  assumes len: "length data = 4 * (w * h)" and small: "255 * int (w * h) < 2 ^ 31"
    and ws: "0 \<le> windowSize" and c: "0 < c" and x: "x < w" and y: "y < h"
    and white: "applyAdaptiveThreshold data w h windowSize c ! ((y * w + x) * 4) = 255"
  shows "let once = applyAdaptiveThreshold data w h windowSize c;
             twice = applyAdaptiveThreshold once w h windowSize c;
             i = (y * w + x) * 4
         in length twice = length once \<and>
            twice ! i = 255 \<and> twice ! (i + 1) = 255 \<and> twice ! (i + 2) = 255 \<and> twice ! (i + 3) = 255"
proof -
  define once where "once = applyAdaptiveThreshold data w h windowSize c"
  define I where "I = computeIntegralImage once w h"
  have len1: "length once = 4 * (w * h)"
    by (simp add: once_def applyAdaptiveThreshold_length len)
  have hw: "0 \<le> windowSize div 2" using ws by simp
  obtain m where m: "localMean I w h (windowSize div 2) x y = Some m" and m255: "m \<le> 255"
    unfolding I_def using len1 small hw x y by (rule localMean_le_255)
  have "m - of_int c \<le> 255 - 1" using m255 c by (simp add: diff_mono)
  then have "m - of_int c \<le> of_nat 254" by simp
  then have "fl53 (m - of_int c) \<le> of_nat 254" by (rule fl53_le_nat) simp
  then have lt: "fl53 (m - of_int c) < 255" by simp
  have i0: "(y * w + x) * 4 < length once" using pixel_in [OF len1 x y, of 0] by simp
  have v: "intensity once w x y = 255"
    using white by (simp add: intensity_def once_def)
  have bv: "binaryValue once I w h (windowSize div 2) c x y = 255"
    unfolding binaryValue_eq [OF i0] m v using lt by simp
  have nth: "applyAdaptiveThreshold once w h windowSize c ! ((y * w + x) * 4 + k) = 255" if "k < 4" for k
    using applyAdaptiveThreshold_nth [OF x y that pixel_in [OF len1 x y that], of windowSize c]
    unfolding bv [unfolded I_def] by simp
  show ?thesis
    unfolding Let_def once_def [symmetric]
    using nth [of 0] nth [of 1] nth [of 2] nth [of 3]
    by (simp add: applyAdaptiveThreshold_length)
qed

theorem white_stays_white_witness:
  "length [100, 100, 100, 255, 20, 20, 20, 255, 0, 0, 0, 255, 20, 20, 20, 255, 100, 100, 100, 255 :: u8]
     = 4 * (5 * 1) \<and>
   255 * int (5 * 1) < 2 ^ 31 \<and>
   applyAdaptiveThreshold
     [100, 100, 100, 255, 20, 20, 20, 255, 0, 0, 0, 255, 20, 20, 20, 255, 100, 100, 100, 255] 5 1 3 10 ! 16
     = 255 \<and>
   applyAdaptiveThreshold (applyAdaptiveThreshold
     [100, 100, 100, 255, 20, 20, 20, 255, 0, 0, 0, 255, 20, 20, 20, 255, 100, 100, 100, 255] 5 1 3 10)
     5 1 3 10 ! 16 = 255"
proof -
  define d :: "u8 list" where
    "d = [100, 100, 100, 255, 20, 20, 20, 255, 0, 0, 0, 255, 20, 20, 20, 255, 100, 100, 100, 255]"
  have len: "length d = 4 * (5 * 1)" by (simp add: d_def)
  have small: "255 * int (5 * 1) < 2 ^ 31" by simp
  have white: "applyAdaptiveThreshold d 5 1 3 10 ! ((0 * 5 + 4) * 4) = 255"
    unfolding d_def by code_simp
  from white_stays_white [OF len small _ _ _ _ white]
  have "applyAdaptiveThreshold (applyAdaptiveThreshold d 5 1 3 10) 5 1 3 10 ! 16 = 255"
    by (simp add: Let_def)
  moreover from white have "applyAdaptiveThreshold d 5 1 3 10 ! 16 = 255" by simp
  ultimately show ?thesis using len unfolding d_def by simp
qed

section \<open>The median filter\<close>

lemma medianStep_length: "length (medianStep copy w y x d) = length d"
  by (simp add: medianStep_def Let_def)

lemma medianStep_nth:
  assumes "x < w" "j < length d"
  shows "medianStep copy w y x d ! j =
     (if j div 4 = y * w + x \<and> j mod 4 \<noteq> 3 then medianAt copy w j else d ! j)"
proof -
  have "medianAt copy w j = medianValue copy w y x" if "j div 4 = y * w + x"
    using that assms(1) by (simp add: medianAt_def)
  then show ?thesis
    unfolding medianStep_def Let_def triple_update_nth [OF assms(2)] by auto
qed

lemma medianRow_length: "length (fold (medianStep copy w y) xs d) = length d"
  by (induction xs arbitrary: d) (simp_all add: medianStep_length)

lemma medianRow_nth:
  assumes "j < length d"
  shows "fold (medianStep copy w y) [1..<w - 1] d ! j =
     (if \<exists>x\<in>set [1..<w - 1]. j div 4 = y * w + x \<and> j mod 4 \<noteq> 3 then medianAt copy w j else d ! j)"
  using assms
  by (intro fold_writes(2) [where P = "\<lambda>x j. j div 4 = y * w + x \<and> j mod 4 \<noteq> 3"]
        medianStep_length medianStep_nth) auto

lemma applyMedianFilter_length: "length (applyMedianFilter data w h) = length data"
proof -
  have "length (fold (\<lambda>y d. fold (medianStep copy w y) [1..<w - 1] d) ys d) = length d"
    for copy ys d
    by (induction ys arbitrary: d) (simp_all add: medianRow_length)
  then show ?thesis by (simp add: applyMedianFilter_def)
qed

text \<open>
  Channel \<open>k\<close> of pixel \<open>(x, y)\<close> after the two loops of the median filter.
\<close>

lemma applyMedianFilter_nth:
  assumes "x < w" "k < 4" "(y * w + x) * 4 + k < length data"
  shows "applyMedianFilter data w h ! ((y * w + x) * 4 + k) =
     (if k \<noteq> 3 \<and> 1 \<le> x \<and> x < w - 1 \<and> 1 \<le> y \<and> y < h - 1 then medianValue data w y x
      else data ! ((y * w + x) * 4 + k))"
proof -
  let ?P = "\<lambda>y j. \<exists>x\<in>set [1..<w - 1]. j div 4 = y * w + x \<and> j mod 4 \<noteq> 3"
  define j where "j = (y * w + x) * 4 + k"
  have jd: "j div 4 = y * w + x" and jm: "j mod 4 = k"
    unfolding j_def using assms(2) by (simp_all only: quad_div quad_mod)
  have jl: "j < length data" using assms(3) by (simp only: j_def)
  have "fold (\<lambda>y d. fold (medianStep data w y) [1..<w - 1] d) [1..<h - 1] data ! j =
        (if \<exists>y\<in>set [1..<h - 1]. ?P y j then medianAt data w j else data ! j)"
    using jl
    by (intro fold_writes(2) [where P = ?P] medianRow_length medianRow_nth) simp_all
  moreover have "(\<exists>y'\<in>set [1..<h - 1]. ?P y' j) \<longleftrightarrow>
      (k \<noteq> 3 \<and> 1 \<le> x \<and> x < w - 1 \<and> 1 \<le> y \<and> y < h - 1)"
  proof
    assume "\<exists>y'\<in>set [1..<h - 1]. ?P y' j"
    then obtain y' x' where y': "1 \<le> y'" "y' < h - 1" and x': "1 \<le> x'" "x' < w - 1"
      and eq: "y * w + x = y' * w + x'" and k: "k \<noteq> 3"
      unfolding jd jm by auto
    have "x' < w" using x' by simp
    from eq have "(y * w + x) mod w = (y' * w + x') mod w" "(y * w + x) div w = (y' * w + x') div w"
      by simp_all
    then have "x = x'" "y = y'" using assms(1) \<open>x' < w\<close> by simp_all
    then show "k \<noteq> 3 \<and> 1 \<le> x \<and> x < w - 1 \<and> 1 \<le> y \<and> y < h - 1"
      using y' x' k by simp
  next
    assume "k \<noteq> 3 \<and> 1 \<le> x \<and> x < w - 1 \<and> 1 \<le> y \<and> y < h - 1"
    then show "\<exists>y'\<in>set [1..<h - 1]. ?P y' j"
      unfolding jd jm by (intro bexI [of _ y] bexI [of _ x]) simp_all
  qed
  moreover have "medianAt data w j = medianValue data w y x"
    using assms(1) by (simp add: medianAt_def jd)
  ultimately have "applyMedianFilter data w h ! j =
     (if k \<noteq> 3 \<and> 1 \<le> x \<and> x < w - 1 \<and> 1 \<le> y \<and> y < h - 1 then medianValue data w y x
      else data ! j)"
    by (simp add: applyMedianFilter_def)
  then show ?thesis unfolding j_def .
qed

lemma rd8i_pixel:
  assumes "(y * w + x) * 4 < length copy"
  shows "rd8i copy ((int y * int w + int x) * 4) = Some (intensity copy w x y)"
proof -
  have e: "(int y * int w + int x) * 4 = int ((y * w + x) * 4)" by simp
  show ?thesis
    unfolding e rd8i_def
    by (simp only: of_nat_less_0_iff if_False nat_int rd8_in [OF assms] intensity_def)
qed

lemma neighborhood_interior:
  assumes len: "length copy = 4 * (w * h)" and x: "1 \<le> x" "x + 1 < w" and y: "1 \<le> y" "y + 1 < h"
  shows "neighborhood copy w y x = map Some
     [intensity copy w (x - 1) (y - 1), intensity copy w x (y - 1), intensity copy w (x + 1) (y - 1),
      intensity copy w (x - 1) y, intensity copy w x y, intensity copy w (x + 1) y,
      intensity copy w (x - 1) (y + 1), intensity copy w x (y + 1), intensity copy w (x + 1) (y + 1)]"
proof -
  have ym: "int y + - 1 = int (y - 1)" and xm: "int x + - 1 = int (x - 1)"
    using x y by simp_all
  have yp: "int y + 1 = int (y + 1)" and xp: "int x + 1 = int (x + 1)" by simp_all
  have y0: "int y + 0 = int y" and x0: "int x + 0 = int x" by simp_all
  have xs: "x - 1 < w" "x < w" "x + 1 < w" and ys: "y - 1 < h" "y < h" "y + 1 < h"
    using x y by simp_all
  have r: "rd8i copy ((int y' * int w + int x') * 4) = Some (intensity copy w x' y')"
    if "x' < w" "y' < h" for x' y'
    using pixel_in [OF len that, of 0] by (intro rd8i_pixel) simp
  show ?thesis
    unfolding neighborhood_def list.map concat.simps append.simps ym xm yp xp y0 x0
      r [OF xs(1) ys(1)] r [OF xs(2) ys(1)] r [OF xs(3) ys(1)]
      r [OF xs(1) ys(2)] r [OF xs(2) ys(2)] r [OF xs(3) ys(2)]
      r [OF xs(1) ys(3)] r [OF xs(2) ys(3)] r [OF xs(3) ys(3)]
    by (rule refl)
qed

lemma sortNumeric_Some: "sortNumeric (map Some xs) = map Some (sort xs)"
proof -
  have "concat (map (\<lambda>v. case v of None \<Rightarrow> [] | Some k \<Rightarrow> [k]) (map Some xs)) = xs"
    by (induction xs) simp_all
  moreover have "filter (\<lambda>v. v = None) (map Some xs) = []"
    by (induction xs) simp_all
  ultimately show ?thesis by (simp add: sortNumeric_def)
qed

lemma median_of_bytes:
  assumes "length ns = 9" "\<forall>k\<in>set ns. 0 \<le> k \<and> k \<le> 255"
  shows "toUint8Clamp (map_option of_int (sortNumeric (map Some ns) ! 4)) = word_of_int (sort ns ! 4)"
proof -
  have l: "length (sort ns) = 9" using assms(1) by simp
  then have "sort ns ! 4 \<in> set (sort ns)" by (intro nth_mem) simp
  then have "sort ns ! 4 \<in> set ns" by simp
  then have rng: "0 \<le> sort ns ! 4" "sort ns ! 4 \<le> 255"
    using assms(2) by auto
  have "sortNumeric (map Some ns) ! 4 = Some (sort ns ! 4)"
    unfolding sortNumeric_Some using l by simp
  then show ?thesis using rng by (simp add: toUint8Clamp_byte)
qed

lemma medianValue_interior:
  assumes len: "length copy = 4 * (w * h)" and x: "1 \<le> x" "x + 1 < w" and y: "1 \<le> y" "y + 1 < h"
  shows "medianValue copy w y x = word_of_int (sort
     [intensity copy w (x - 1) (y - 1), intensity copy w x (y - 1), intensity copy w (x + 1) (y - 1),
      intensity copy w (x - 1) y, intensity copy w x y, intensity copy w (x + 1) y,
      intensity copy w (x - 1) (y + 1), intensity copy w x (y + 1), intensity copy w (x + 1) (y + 1)] ! 4)"
proof -
  define ns where "ns = [intensity copy w (x - 1) (y - 1), intensity copy w x (y - 1), intensity copy w (x + 1) (y - 1),
      intensity copy w (x - 1) y, intensity copy w x y, intensity copy w (x + 1) y,
      intensity copy w (x - 1) (y + 1), intensity copy w x (y + 1), intensity copy w (x + 1) (y + 1)]"
  have l: "length ns = 9" by (simp add: ns_def)
  have r: "\<forall>k\<in>set ns. 0 \<le> k \<and> k \<le> 255"
    using intensity_range [of copy w] by (auto simp: ns_def)
  have "neighborhood copy w y x = map Some ns"
    unfolding ns_def by (rule neighborhood_interior [OF assms])
  then have "medianValue copy w y x = word_of_int (sort ns ! 4)"
    unfolding medianValue_def by (simp only: median_of_bytes [OF l r])
  then show ?thesis unfolding ns_def .
qed

text \<open>
  C7: in a buffer of \<open>width * height\<close> pixels applyMedianFilter keeps the length of the
  buffer and the opacity of every pixel; a pixel of the outermost ring keeps its three
  colour channels, and every other pixel gets, in its three colour channels, the fifth
  of the nine sorted intensities of its 3 by 3 neighbourhood in the buffer as it was
  before the call.
\<close>

theorem applyMedianFilter_frame:
  assumes "length data = 4 * (w * h)" and "x < w" and "y < h"
  shows "let out = applyMedianFilter data w h;
             i = (y * w + x) * 4;
             border = (x = 0 \<or> y = 0 \<or> x = w - 1 \<or> y = h - 1);
             median = word_of_int (sort
               [intensity data w (x - 1) (y - 1), intensity data w x (y - 1), intensity data w (x + 1) (y - 1),
                intensity data w (x - 1) y, intensity data w x y, intensity data w (x + 1) y,
                intensity data w (x - 1) (y + 1), intensity data w x (y + 1), intensity data w (x + 1) (y + 1)] ! 4)
         in length out = length data \<and> out ! (i + 3) = data ! (i + 3) \<and>
            (if border then out ! i = data ! i \<and> out ! (i + 1) = data ! (i + 1) \<and> out ! (i + 2) = data ! (i + 2)
             else out ! i = median \<and> out ! (i + 1) = median \<and> out ! (i + 2) = median)"
proof -
  have nth: "applyMedianFilter data w h ! ((y * w + x) * 4 + k) =
     (if k \<noteq> 3 \<and> 1 \<le> x \<and> x < w - 1 \<and> 1 \<le> y \<and> y < h - 1 then medianValue data w y x
      else data ! ((y * w + x) * 4 + k))" if "k < 4" for k
    using assms(2) that pixel_in [OF assms that] by (rule applyMedianFilter_nth)
  show ?thesis
  proof (cases "x = 0 \<or> y = 0 \<or> x = w - 1 \<or> y = h - 1")
    case True
    then have nb: "\<not> (k \<noteq> 3 \<and> 1 \<le> x \<and> x < w - 1 \<and> 1 \<le> y \<and> y < h - 1)" for k :: nat
      by auto
    have e: "applyMedianFilter data w h ! ((y * w + x) * 4 + k) = data ! ((y * w + x) * 4 + k)"
      if "k < 4" for k
      using nth [OF that] unfolding if_not_P [OF nb] .
    show ?thesis
      unfolding Let_def using True e [of 0] e [of 1] e [of 2] e [of 3]
      by (simp add: applyMedianFilter_length)
  next
    case False
    then have int: "1 \<le> x" "x + 1 < w" "1 \<le> y" "y + 1 < h" using assms(2,3) by auto
    then have c: "k \<noteq> 3 \<and> 1 \<le> x \<and> x < w - 1 \<and> 1 \<le> y \<and> y < h - 1" if "k < 3" for k :: nat
      using that by auto
    have e: "applyMedianFilter data w h ! ((y * w + x) * 4 + k) = medianValue data w y x"
      if "k < 3" for k
    proof -
      from that have "k < 4" by simp
      from nth [OF this] show ?thesis unfolding if_P [OF c [OF that]] .
    qed
    have e3: "applyMedianFilter data w h ! ((y * w + x) * 4 + 3) = data ! ((y * w + x) * 4 + 3)"
      using nth [of 3] by simp
    show ?thesis
      unfolding Let_def medianValue_interior [OF assms(1) int, symmetric]
      using False e [of 0] e [of 1] e [of 2] e3
      by (simp add: applyMedianFilter_length)
  qed
qed

theorem applyMedianFilter_frame_witness:
  "length [1, 1, 1, 10, 2, 2, 2, 20, 3, 3, 3, 30,
           4, 4, 4, 40, 200, 200, 200, 50, 6, 6, 6, 60,
           7, 7, 7, 70, 8, 8, 8, 80, 9, 9, 9, 90 :: u8] = 4 * (3 * 3) \<and>
   applyMedianFilter [1, 1, 1, 10, 2, 2, 2, 20, 3, 3, 3, 30,
           4, 4, 4, 40, 200, 200, 200, 50, 6, 6, 6, 60,
           7, 7, 7, 70, 8, 8, 8, 80, 9, 9, 9, 90] 3 3 ! 16 = 6 \<and>
   applyMedianFilter [1, 1, 1, 10, 2, 2, 2, 20, 3, 3, 3, 30,
           4, 4, 4, 40, 200, 200, 200, 50, 6, 6, 6, 60,
           7, 7, 7, 70, 8, 8, 8, 80, 9, 9, 9, 90] 3 3 ! 19 = 50 \<and>
   applyMedianFilter [1, 1, 1, 10, 2, 2, 2, 20, 3, 3, 3, 30,
           4, 4, 4, 40, 200, 200, 200, 50, 6, 6, 6, 60,
           7, 7, 7, 70, 8, 8, 8, 80, 9, 9, 9, 90] 3 3 ! 20 = 6"
proof -
  define d :: "u8 list" where "d = [1, 1, 1, 10, 2, 2, 2, 20, 3, 3, 3, 30,
           4, 4, 4, 40, 200, 200, 200, 50, 6, 6, 6, 60,
           7, 7, 7, 70, 8, 8, 8, 80, 9, 9, 9, 90]"
  have len: "length d = 4 * (3 * 3)" by (simp add: d_def)
  have m: "word_of_int (sort
               [intensity d 3 (1 - 1) (1 - 1), intensity d 3 1 (1 - 1), intensity d 3 (1 + 1) (1 - 1),
                intensity d 3 (1 - 1) 1, intensity d 3 1 1, intensity d 3 (1 + 1) 1,
                intensity d 3 (1 - 1) (1 + 1), intensity d 3 1 (1 + 1), intensity d 3 (1 + 1) (1 + 1)] ! 4)
        = (6 :: u8)"
    unfolding d_def by code_simp
  have a: "d ! 19 = 50" "d ! 20 = 6" by (simp_all add: d_def)
  from applyMedianFilter_frame [OF len, of 1 1, unfolded Let_def m]
  have 1: "applyMedianFilter d 3 3 ! 16 = 6" "applyMedianFilter d 3 3 ! 19 = 50"
    by (simp_all add: a)
  from applyMedianFilter_frame [OF len, of 2 1, unfolded Let_def]
  have 2: "applyMedianFilter d 3 3 ! 20 = 6"
    by (simp add: a)
  show ?thesis using len 1 2 unfolding d_def by simp
qed

section \<open>The grayscale conversion\<close>

lemma grayStep_length: "length (grayStep p d) = length d"
  by (simp add: grayStep_def Let_def)

lemma grayStep_nth:
  assumes "j < length d"
  shows "grayStep p d ! j = (if j div 4 = p \<and> j mod 4 \<noteq> 3 then grayAt d p else d ! j)"
  unfolding grayStep_def Let_def gray_update_nth [OF assms] grayAt_def by (rule refl)

lemma rd8_grayStep:
  assumes "j div 4 \<noteq> p"
  shows "rd8 (grayStep p d) j = rd8 d j"
  using assms by (simp add: rd8_def grayStep_length grayStep_nth)

lemma grayAt_grayStep:
  assumes "q \<noteq> p"
  shows "grayAt (grayStep p d) q = grayAt d q"
proof -
  have n: "(q * 4) div 4 \<noteq> p" "(q * 4 + 1) div 4 \<noteq> p" "(q * 4 + 2) div 4 \<noteq> p"
    using assms by simp_all
  show ?thesis
    unfolding grayAt_def rd8_grayStep [OF n(1)] rd8_grayStep [OF n(2)] rd8_grayStep [OF n(3)]
    by (rule refl)
qed

lemma grayFold_length: "length (fold grayStep ps d) = length d"
  by (induction ps arbitrary: d) (simp_all add: grayStep_length)

text \<open>
  The grayscale loop works in place, but an iteration reads only the channels of its
  own pixel, which no other iteration writes.
\<close>

lemma grayFold_nth:
  assumes "distinct ps" "j < length d"
  shows "fold grayStep ps d ! j =
     (if j div 4 \<in> set ps \<and> j mod 4 \<noteq> 3 then grayAt d (j div 4) else d ! j)"
  using assms
proof (induction ps arbitrary: d)
  case Nil
  then show ?case by simp
next
  case (Cons p ps)
  have "fold grayStep (p # ps) d ! j = fold grayStep ps (grayStep p d) ! j" by simp
  also have "\<dots> = (if j div 4 \<in> set ps \<and> j mod 4 \<noteq> 3 then grayAt (grayStep p d) (j div 4)
                      else grayStep p d ! j)"
    using Cons.prems by (intro Cons.IH) (simp_all add: grayStep_length)
  also have "\<dots> = (if j div 4 \<in> set (p # ps) \<and> j mod 4 \<noteq> 3 then grayAt d (j div 4) else d ! j)"
  proof (cases "j div 4 \<in> set ps")
    case True
    then have "j div 4 \<noteq> p" using Cons.prems(1) by auto
    then show ?thesis using True Cons.prems(2) by (simp add: grayAt_grayStep grayStep_nth)
  next
    case False
    then show ?thesis using Cons.prems(2) by (simp add: grayStep_nth)
  qed
  finally show ?case .
qed

lemma grayscaleConvert_length: "length (grayscaleConvert data) = length data"
  by (simp add: grayscaleConvert_def grayFold_length)

lemma grayscaleConvert_nth:
  assumes "j < length data"
  shows "grayscaleConvert data ! j = (if j mod 4 \<noteq> 3 then grayAt data (j div 4) else data ! j)"
proof -
  have "j div 4 < (length data + 3) div 4" using assms by presburger
  then have "j div 4 \<in> set [0..<(length data + 3) div 4]" by simp
  then show ?thesis
    unfolding grayscaleConvert_def using assms by (simp add: grayFold_nth)
qed

lemma scale_err:
  fixes a b :: rat
  assumes "\<bar>a - b\<bar> \<le> \<alpha>" "0 \<le> k" "k \<le> 255"
  shows "\<bar>a * of_int k - b * of_int k\<bar> \<le> 255 * \<alpha>"
proof -
  have "\<bar>a * of_int k - b * of_int k\<bar> = \<bar>a - b\<bar> * of_int k"
    using assms(2) by (simp add: abs_mult flip: left_diff_distrib)
  also have "\<dots> \<le> \<alpha> * 255"
    using assms by (intro mult_mono) simp_all
  finally show ?thesis by simp
qed

lemma luminance_err:
  assumes r: "0 \<le> r" "r \<le> 255" and g: "0 \<le> g" "g \<le> 255" and b: "0 \<le> b" "b \<le> 255"
  obtains v where "luminance (Some r) (Some g) (Some b) = Some v"
    and "\<bar>v - (299 * of_int r + 587 * of_int g + 114 * of_int b) / 1000\<bar> \<le> 770 / 2 ^ 45"
proof -
  define \<alpha> :: rat where "\<alpha> = 1 / 2 ^ 45"
  have \<alpha>: "0 < \<alpha>" "\<alpha> \<le> 1 / 1000000" by (simp_all add: \<alpha>_def)
  define c1 c2 c3 :: rat where "c1 = fl53 (299 / 1000)" and "c2 = fl53 (587 / 1000)"
    and "c3 = fl53 (114 / 1000)"
  have c1: "\<bar>c1 - 299 / 1000\<bar> \<le> \<alpha>" and c2: "\<bar>c2 - 587 / 1000\<bar> \<le> \<alpha>"
    and c3: "\<bar>c3 - 114 / 1000\<bar> \<le> \<alpha>"
    unfolding c1_def c2_def c3_def \<alpha>_def by (intro fl53_err; simp)+
  define R G B :: rat where "R = of_int r" and "G = of_int g" and "B = of_int b"
  have R: "0 \<le> R" "R \<le> 255" and G: "0 \<le> G" "G \<le> 255" and B: "0 \<le> B" "B \<le> 255"
    using r g b by (simp_all add: R_def G_def B_def)
  have p1: "\<bar>c1 * R - 299 / 1000 * R\<bar> \<le> 255 * \<alpha>"
    unfolding R_def using c1 r by (rule scale_err)
  have p2: "\<bar>c2 * G - 587 / 1000 * G\<bar> \<le> 255 * \<alpha>"
    unfolding G_def using c2 g by (rule scale_err)
  have p3: "\<bar>c3 * B - 114 / 1000 * B\<bar> \<le> 255 * \<alpha>"
    unfolding B_def using c3 b by (rule scale_err)
  define t1 t2 t3 where "t1 = fl53 (c1 * R)" and "t2 = fl53 (c2 * G)" and "t3 = fl53 (c3 * B)"
  have m1: "0 \<le> 299 / 1000 * R" "299 / 1000 * R \<le> 299 / 1000 * 255" using R by simp_all
  have m2: "0 \<le> 587 / 1000 * G" "587 / 1000 * G \<le> 587 / 1000 * 255" using G by simp_all
  have m3: "0 \<le> 114 / 1000 * B" "114 / 1000 * B \<le> 114 / 1000 * 255" using B by simp_all
  have n1: "0 \<le> c1 * R" "0 \<le> c2 * G" "0 \<le> c3 * B"
  proof -
    have "0 \<le> c1" using c1 \<alpha> by linarith
    moreover have "0 \<le> c2" using c2 \<alpha> by linarith
    moreover have "0 \<le> c3" using c3 \<alpha> by linarith
    ultimately show "0 \<le> c1 * R" "0 \<le> c2 * G" "0 \<le> c3 * B" using R G B by simp_all
  qed
  have e1: "\<bar>t1 - c1 * R\<bar> \<le> \<alpha>"
    unfolding t1_def \<alpha>_def using n1(1) p1 m1 \<alpha> by (intro fl53_err) linarith+
  have e2: "\<bar>t2 - c2 * G\<bar> \<le> \<alpha>"
    unfolding t2_def \<alpha>_def using n1(2) p2 m2 \<alpha> by (intro fl53_err) linarith+
  have e3: "\<bar>t3 - c3 * B\<bar> \<le> \<alpha>"
    unfolding t3_def \<alpha>_def using n1(3) p3 m3 \<alpha> by (intro fl53_err) linarith+
  have t: "0 \<le> t1" "0 \<le> t2" "0 \<le> t3"
    unfolding t1_def t2_def t3_def using n1 by (simp_all add: fl53_nonneg)
  define s where "s = fl53 (t1 + t2)"
  have s0: "0 \<le> s" unfolding s_def using t by (simp add: fl53_nonneg)
  have e4: "\<bar>s - (t1 + t2)\<bar> \<le> \<alpha>"
    unfolding s_def \<alpha>_def using e1 e2 p1 p2 m1 m2 n1 \<alpha> t by (intro fl53_err) linarith+
  define v where "v = fl53 (s + t3)"
  have e5: "\<bar>v - (s + t3)\<bar> \<le> \<alpha>"
    unfolding v_def \<alpha>_def using e1 e2 e3 e4 p1 p2 p3 m1 m2 m3 n1 \<alpha> t s0
    by (intro fl53_err) linarith+
  have "\<bar>v - (299 / 1000 * R + 587 / 1000 * G + 114 / 1000 * B)\<bar> \<le> 770 * \<alpha>"
    using e1 e2 e3 e4 e5 p1 p2 p3 by linarith
  then have "\<bar>v - (299 * of_int r + 587 * of_int g + 114 * of_int b) / 1000\<bar> \<le> 770 / 2 ^ 45"
    by (simp add: R_def G_def B_def \<alpha>_def add_divide_distrib)
  moreover have "luminance (Some r) (Some g) (Some b) = Some v"
    by (simp add: luminance_def v_def s_def t1_def t2_def t3_def c1_def c2_def c3_def R_def G_def B_def)
  ultimately show ?thesis using that by simp
qed

lemma nearest_thousandth:
  fixes B n :: int
  assumes "\<bar>rat_of_int B - of_int n / 1000\<bar> \<le> 1 / 2 + 770 / 2 ^ 45"
  shows "\<bar>rat_of_int B - of_int n / 1000\<bar> \<le> 1 / 2"
proof -
  have e: "rat_of_int (1000 * B - n) = 1000 * (of_int B - of_int n / 1000)" by simp
  have "\<bar>rat_of_int (1000 * B - n)\<bar> \<le> 1000 * (1 / 2 + 770 / 2 ^ 45)"
    unfolding e abs_mult using assms by simp
  also have "\<dots> < 501" by simp
  finally have "rat_of_int \<bar>1000 * B - n\<bar> < of_int 501" by simp
  then have "\<bar>1000 * B - n\<bar> < 501" by (simp only: of_int_less_iff)
  then have "\<bar>1000 * B - n\<bar> \<le> 500" by simp
  then have "rat_of_int \<bar>1000 * B - n\<bar> \<le> of_int 500" by (simp only: of_int_le_iff)
  then have "\<bar>1000 * (rat_of_int B - of_int n / 1000)\<bar> \<le> 500" by simp
  then show ?thesis unfolding abs_mult by simp
qed

text \<open>
  The rounding errors of the luminance expression stay below \<open>770 / 2 ^ 45\<close>, and the
  exact luminance is a multiple of a thousandth: the byte stored is an integer nearest
  to it.
\<close>

lemma gray_byte_nearest:
  fixes r g b :: u8
  shows "\<bar>rat_of_int (uint (toUint8Clamp (luminance (Some (uint r)) (Some (uint g)) (Some (uint b)))))
          - of_int (299 * uint r + 587 * uint g + 114 * uint b) / 1000\<bar> \<le> 1 / 2"
proof -
  have rng: "0 \<le> uint x" "uint x \<le> 255" for x :: u8
  proof -
    show "0 \<le> uint x" by simp
    have "uint x < 2 ^ LENGTH(8)" by (rule uint_lt2p)
    then show "uint x \<le> 255" by simp
  qed
  define n where "n = 299 * uint r + 587 * uint g + 114 * uint b"
  have n: "0 \<le> n" "n \<le> 255000" unfolding n_def using rng [of r] rng [of g] rng [of b] by simp_all
  obtain v where v: "luminance (Some (uint r)) (Some (uint g)) (Some (uint b)) = Some v"
    and err: "\<bar>v - (299 * of_int (uint r) + 587 * of_int (uint g) + 114 * of_int (uint b)) / 1000\<bar>
               \<le> 770 / 2 ^ 45"
    by (rule luminance_err [OF rng rng rng])
  have E: "(299 * rat_of_int (uint r) + 587 * of_int (uint g) + 114 * of_int (uint b)) / 1000
      = of_int n / 1000"
    by (simp add: n_def)
  have "0 \<le> rat_of_int n / 1000" "rat_of_int n / 1000 \<le> 255" using n by simp_all
  with err [unfolded E]
  have "\<bar>rat_of_int (uint (toUint8Clamp (Some v))) - of_int n / 1000\<bar> \<le> 1 / 2 + 770 / 2 ^ 45"
    by (rule toUint8Clamp_near)
  then have "\<bar>rat_of_int (uint (toUint8Clamp (Some v))) - of_int n / 1000\<bar> \<le> 1 / 2"
    by (rule nearest_thousandth)
  then show ?thesis unfolding v n_def .
qed

text \<open>
  C6: after the grayscale conversion every pixel of the buffer has its three colour
  channels equal to the luminance \<^verbatim>\<open>0.299 * r + 0.587 * g + 0.114 * b\<close> of its original
  channels, as the double-precision evaluation and the clamped store round it to a byte,
  and its opacity unchanged. That byte is an integer nearest to the exact value
  \<open>(299 * r + 587 * g + 114 * b) / 1000\<close>.
\<close>

theorem grayscaleConvert_channels:
  assumes "p * 4 + 3 < length data"
  shows "let out = grayscaleConvert data;
             i = p * 4;
             r = uint (data ! i); g = uint (data ! (i + 1)); b = uint (data ! (i + 2));
             L = toUint8Clamp (luminance (Some r) (Some g) (Some b))
         in length out = length data \<and>
            out ! i = L \<and> out ! (i + 1) = L \<and> out ! (i + 2) = L \<and> out ! (i + 3) = data ! (i + 3) \<and>
            \<bar>rat_of_int (uint L) - of_int (299 * r + 587 * g + 114 * b) / 1000\<bar> \<le> 1 / 2"
proof -
  have g: "grayAt data p = toUint8Clamp (luminance (Some (uint (data ! (p * 4))))
      (Some (uint (data ! (p * 4 + 1)))) (Some (uint (data ! (p * 4 + 2)))))"
    using assms by (simp add: grayAt_def rd8_in)
  have nth: "grayscaleConvert data ! (p * 4 + k) = (if k \<noteq> 3 then grayAt data p else data ! (p * 4 + k))"
    if "k < 4" for k
  proof -
    have "p * 4 + k < length data" using assms that by simp
    from grayscaleConvert_nth [OF this] show ?thesis
      unfolding quad_div [OF that] quad_mod [OF that] .
  qed
  show ?thesis
    unfolding Let_def g [symmetric]
    using nth [of 0] nth [of 1] nth [of 2] nth [of 3]
      gray_byte_nearest [of "data ! (p * 4)" "data ! (p * 4 + 1)" "data ! (p * 4 + 2)", folded g]
    by (simp add: grayscaleConvert_length)
qed

theorem grayscaleConvert_channels_witness:
  "1 * 4 + 3 < length [0, 80, 110, 7, 255, 0, 0, 9 :: u8] \<and>
   grayscaleConvert [0, 80, 110, 7, 255, 0, 0, 9] ! 4 = 76 \<and>
   grayscaleConvert [0, 80, 110, 7, 255, 0, 0, 9] ! 5 = 76 \<and>
   grayscaleConvert [0, 80, 110, 7, 255, 0, 0, 9] ! 6 = 76 \<and>
   grayscaleConvert [0, 80, 110, 7, 255, 0, 0, 9] ! 7 = 9"
proof -
  define d :: "u8 list" where "d = [0, 80, 110, 7, 255, 0, 0, 9]"
  have l1: "1 * 4 + 3 < length d" by (simp add: d_def)
  have g1: "toUint8Clamp (luminance (Some (uint (d ! (1 * 4)))) (Some (uint (d ! (1 * 4 + 1))))
                   (Some (uint (d ! (1 * 4 + 2))))) = 76"
    unfolding d_def by code_simp
  have a: "d ! 7 = 9" by (simp add: d_def)
  from grayscaleConvert_channels [OF l1, unfolded Let_def g1]
  have "grayscaleConvert d ! 4 = 76" "grayscaleConvert d ! 5 = 76"
    "grayscaleConvert d ! 6 = 76" "grayscaleConvert d ! 7 = 9"
    by (simp_all add: a)
  then show ?thesis using l1 unfolding d_def by simp
qed

lemma grayAt_white:
  assumes "p * 4 + 3 < n"
  shows "grayAt (replicate n 255) p = 255"
proof -
  have "toUint8Clamp (luminance (Some 255) (Some 255) (Some 255)) = 255" by code_simp
  then show ?thesis using assms by (simp add: grayAt_def rd8_def)
qed

lemma grayscaleConvert_white:
  "grayscaleConvert (replicate (4 * n) 255) = replicate (4 * n) 255"
proof (rule nth_equalityI)
  show "length (grayscaleConvert (replicate (4 * n) 255)) = length (replicate (4 * n) (255 :: u8))"
    by (simp add: grayscaleConvert_length)
next
  fix j assume "j < length (grayscaleConvert (replicate (4 * n) 255))"
  then have j: "j < 4 * n" by (simp add: grayscaleConvert_length)
  then have "j div 4 * 4 + 3 < 4 * n" by presburger
  then have "grayAt (replicate (4 * n) 255) (j div 4) = 255" by (rule grayAt_white)
  then show "grayscaleConvert (replicate (4 * n) 255) ! j = replicate (4 * n) 255 ! j"
    using j by (simp add: grayscaleConvert_nth)
qed

section \<open>The pipeline\<close>

lemma truncate_plain: "PreprocessOptions.truncate opts = opts" for opts :: PreprocessOptions
  by (simp add: PreprocessOptions.truncate_def)

lemma mkConfig_truncate:
  "mkConfig (map_option PreprocessOptions.truncate options) = mkConfig options"
  by (cases options) (simp_all add: truncate_plain)

text \<open>The configuration in terms of the options: a default stands where a flag is absent.\<close>

lemma config_of_options:
  fixes opts :: "'a PreprocessOptions_scheme"
  shows "mkConfig (Some (PreprocessOptions.truncate opts)) =
     \<lparr>cfg_grayscale = (grayscale opts = Absent \<or> grayscale opts = Given True),
      cfg_binarize = (binarize opts = Absent \<or> binarize opts = Given True),
      cfg_denoise = (denoise opts = Given True),
      cfg_upscale = (upscale opts = Absent \<or> upscale opts = Given True)\<rparr>"
  by (simp add: mkConfig_def spread_def PreprocessOptions.truncate_def split: optional.splits)

lemma config_default:
  "mkConfig None =
     \<lparr>cfg_grayscale = True, cfg_binarize = True, cfg_denoise = False, cfg_upscale = True\<rparr>"
  by (simp add: mkConfig_def noOptions_def spread_def)

text \<open>The promise of an image that has loaded, with a 2D context at hand.\<close>

lemma preprocessImage_loaded:
  assumes "decode env f = Some img" "getContext env"
    and "cfg = mkConfig (map_option PreprocessOptions.truncate options)"
    and "upscaleDims cfg (imgWidth img) (imgHeight img) = (W, H)"
  shows "preprocessImage env f options =
     (case getImageData env W H (drawImage env img W H) of
        None \<Rightarrow> Pending
      | Some data \<Rightarrow>
          if allocationFails env cfg (length data) W H then Pending
          else Resolved (DataURL (toDataURL env W H (runStages cfg data W H))))"
  using assms(1,2,4) unfolding assms(3) by (simp add: preprocessImage_def Let_def)

text \<open>
  C4 as stated (with upscale enabled an 1800 by 900 image keeps its dimensions): its
  height is below 1500, so both dimensions are doubled.
\<close>

theorem upscale_1800x900_counterexample:
  "cfg_upscale (mkConfig None) \<and> upscaleDims (mkConfig None) 1800 900 = (3600, 1800) \<and>
   upscaleDims (mkConfig None) 1800 900 \<noteq> (1800, 900)"
  by (simp add: upscaleDims_def mkConfig_def noOptions_def spread_def)

text \<open>
  C4, amended: with upscale enabled both dimensions are doubled when the width or the
  height of the decoded image is below 1500, and kept otherwise; the canvas is drawn and
  read back, and every stage runs, at the resulting size. A 100 by 100 image becomes 200
  by 200, an 1800 by 900 image becomes 3600 by 1800, an 1800 by 1500 image is unchanged.
\<close>

theorem upscale_floor:
  "(\<forall>(cfg :: config) w h. cfg_upscale cfg \<longrightarrow>
      upscaleDims cfg w h = (if w < 1500 \<or> h < 1500 then (w * 2, h * 2) else (w, h)))
   \<and> (\<forall>(env :: browser) f (options :: PreprocessOptions option) img.
        decode env f = Some img \<longrightarrow> getContext env \<longrightarrow>
        (case upscaleDims (mkConfig options) (imgWidth img) (imgHeight img) of (W, H) \<Rightarrow>
           preprocessImage env f options =
             (case getImageData env W H (drawImage env img W H) of
                None \<Rightarrow> Pending
              | Some data \<Rightarrow>
                  if allocationFails env (mkConfig options) (length data) W H then Pending
                  else Resolved (DataURL (toDataURL env W H
                         (runStages (mkConfig options) data W H))))))
   \<and> upscaleDims (mkConfig None) 100 100 = (200, 200)
   \<and> upscaleDims (mkConfig None) 1800 900 = (3600, 1800)
   \<and> upscaleDims (mkConfig None) 1800 1500 = (1800, 1500)"
proof (intro conjI allI impI)
  fix cfg :: config and w h :: nat
  assume "cfg_upscale cfg"
  then show "upscaleDims cfg w h = (if w < 1500 \<or> h < 1500 then (w * 2, h * 2) else (w, h))"
    by (simp add: upscaleDims_def)
next
  fix env :: browser and f :: bytes and options :: "PreprocessOptions option" and img
  assume "decode env f = Some img" "getContext env"
  then show "case upscaleDims (mkConfig options) (imgWidth img) (imgHeight img) of (W, H) \<Rightarrow>
           preprocessImage env f options =
             (case getImageData env W H (drawImage env img W H) of
                None \<Rightarrow> Pending
              | Some data \<Rightarrow>
                  if allocationFails env (mkConfig options) (length data) W H then Pending
                  else Resolved (DataURL (toDataURL env W H
                         (runStages (mkConfig options) data W H))))"
    by (simp add: preprocessImage_def Let_def mkConfig_truncate split: prod.splits)
qed (simp_all add: upscaleDims_def config_default)

theorem upscale_floor_witness:
  "cfg_upscale (mkConfig None) \<and>
   upscaleDims (mkConfig None) 1499 2000 = (2998, 4000) \<and>
   upscaleDims (mkConfig None) 1500 1500 = (1500, 1500) \<and>
   preprocessImage
     \<lparr>decode = (\<lambda>f. Some (Image 3 2 f)), getContext = True,
      drawImage = (\<lambda>img w h. replicate (4 * (w * h)) 0),
      readable = (\<lambda>w h. True), newInt32Array = (\<lambda>n. True),
      newUint8ClampedArray = (\<lambda>n. True),
      toDataURL = (\<lambda>w h d. replicate w (CHR ''w'') @ replicate h (CHR ''h''))\<rparr> []
     (None :: PreprocessOptions option)
     = Resolved (DataURL (replicate 6 (CHR ''w'') @ replicate 4 (CHR ''h'')))"
proof -
  let ?env = "\<lparr>decode = (\<lambda>f. Some (Image 3 2 f)), getContext = True,
      drawImage = (\<lambda>img w h. replicate (4 * (w * h)) 0),
      readable = (\<lambda>w h. True), newInt32Array = (\<lambda>n. True),
      newUint8ClampedArray = (\<lambda>n. True),
      toDataURL = (\<lambda>w h d. replicate w (CHR ''w'') @ replicate h (CHR ''h''))\<rparr>"
  have u: "cfg_upscale (mkConfig None)"
    by (simp add: config_default)
  from upscale_floor have r: "upscaleDims (mkConfig None) w h =
      (if w < 1500 \<or> h < 1500 then (w * 2, h * 2) else (w, h))" for w h
    using u by blast
  have d: "decode ?env [] = Some (Image 3 2 [])" and g: "getContext ?env" by simp_all
  have "preprocessImage ?env [] (None :: PreprocessOptions option)
      = Resolved (DataURL (replicate 6 (CHR ''w'') @ replicate 4 (CHR ''h'')))"
    using upscale_floor [THEN conjunct2, THEN conjunct1, rule_format, OF d g, of None]
    by (simp add: r [of 3 2] getImageData_def allocationFails_def)
  then show ?thesis using u r [of 1499 2000] r [of 1500 1500] by simp
qed

text \<open>
  C8 as stated (an invocation with an invalid configuration, such as a non-positive or
  an even \<open>windowSize\<close>, is refused with a \<^verbatim>\<open>ConfigError\<close> before any pixel work): a call
  whose options object carries \<open>windowSize = 0\<close>, or the even \<open>windowSize = 4\<close>, is not
  refused. The promise resolves with the encoded canvas, whose pixels were reduced to
  gray and thresholded (here: white, black, white, black).
\<close>

theorem invalid_windowSize_counterexample:
  "preprocessImage
     \<lparr>decode = (\<lambda>f. Some (Image 2 2 f)), getContext = True,
      drawImage = (\<lambda>img w h. [0, 255, 0, 255, 100, 0, 0, 255, 0, 255, 0, 255, 100, 0, 0, 255]),
      readable = (\<lambda>w h. True), newInt32Array = (\<lambda>n. True),
      newUint8ClampedArray = (\<lambda>n. True),
      toDataURL = (\<lambda>w h d. map (\<lambda>b. if b = 255 then CHR ''W'' else CHR ''B'') d)\<rparr>
     [1, 2, 3]
     (Some \<lparr>grayscale = Absent, binarize = Given True, denoise = Absent, upscale = Given False,
            \<dots> = [(''windowSize'', 0 :: int)]\<rparr>)
   = Resolved (DataURL ''WWWWBBBWWWWWBBBW'') \<and>
   preprocessImage
     \<lparr>decode = (\<lambda>f. Some (Image 2 2 f)), getContext = True,
      drawImage = (\<lambda>img w h. [0, 255, 0, 255, 100, 0, 0, 255, 0, 255, 0, 255, 100, 0, 0, 255]),
      readable = (\<lambda>w h. True), newInt32Array = (\<lambda>n. True),
      newUint8ClampedArray = (\<lambda>n. True),
      toDataURL = (\<lambda>w h d. map (\<lambda>b. if b = 255 then CHR ''W'' else CHR ''B'') d)\<rparr>
     [1, 2, 3]
     (Some \<lparr>grayscale = Absent, binarize = Given True, denoise = Absent, upscale = Given False,
            \<dots> = [(''windowSize'', 4 :: int)]\<rparr>)
   = Resolved (DataURL ''WWWWBBBWWWWWBBBW'')"
proof -
  have px: "applyAdaptiveThreshold (grayscaleConvert [0, 255, 0, 255, 100, 0, 0, 255, 0, 255, 0, 255, 100, 0, 0, 255]) 2 2 41 15
      = [255, 255, 255, 255, 0, 0, 0, 255, 255, 255, 255, 255, 0, 0, 0, 255]"
    by code_simp
  show ?thesis
    by (simp add: preprocessImage_def Let_def config_of_options upscaleDims_def
          getImageData_def allocationFails_def runStages_def px)
qed

text \<open>
  C8, amended: preprocessImage validates nothing and has no \<^verbatim>\<open>ConfigError\<close>. A property
  of the options object other than the four stage flags, such as a \<open>windowSize\<close>, is
  ignored: the promise is that of the call without it. The promise is rejected exactly
  when the image does not load, whatever the options. When binarize is on and the image
  is loaded, read back and the arrays are allocated, the threshold stage runs with
  \<open>windowSize = 41\<close> and constant 15, after the grayscale conversion and, when
  \<open>denoise\<close> is given as true, the median filter.
\<close>

theorem no_config_validation:
  "(\<forall>(env :: browser) f (opts :: 'a PreprocessOptions_scheme).
      preprocessImage env f (Some opts)
        = preprocessImage env f (Some (PreprocessOptions.truncate opts)))
   \<and> (\<forall>(env :: browser) f (options :: 'a PreprocessOptions_scheme option).
      (preprocessImage env f options = Rejected) = (decode env f = None))
   \<and> (\<forall>(env :: browser) f (opts :: 'a PreprocessOptions_scheme) img W H data.
      decode env f = Some img \<longrightarrow> getContext env \<longrightarrow>
      binarize opts = Absent \<or> binarize opts = Given True \<longrightarrow>
      (W, H) = (if (upscale opts = Absent \<or> upscale opts = Given True)
                   \<and> (imgWidth img < 1500 \<or> imgHeight img < 1500)
                then (imgWidth img * 2, imgHeight img * 2) else (imgWidth img, imgHeight img)) \<longrightarrow>
      getImageData env W H (drawImage env img W H) = Some data \<longrightarrow>
      newInt32Array env (W * H) \<longrightarrow> newUint8ClampedArray env (length data) \<longrightarrow>
      preprocessImage env f (Some opts) =
        Resolved (DataURL (toDataURL env W H
          (applyAdaptiveThreshold
             (if denoise opts = Given True then applyMedianFilter (grayscaleConvert data) W H
              else grayscaleConvert data) W H 41 15))))"
proof (intro conjI allI impI)
  fix env :: browser and f :: bytes and opts :: "'a PreprocessOptions_scheme"
  show "preprocessImage env f (Some opts)
        = preprocessImage env f (Some (PreprocessOptions.truncate opts))"
    by (simp add: preprocessImage_def truncate_plain)
next
  fix env :: browser and f :: bytes and options :: "'a PreprocessOptions_scheme option"
  show "(preprocessImage env f options = Rejected) = (decode env f = None)"
    by (simp add: preprocessImage_def Let_def split: option.splits prod.splits)
next
  fix env :: browser and f :: bytes and opts :: "'a PreprocessOptions_scheme"
    and img W H data
  assume load: "decode env f = Some img" "getContext env"
    and b: "binarize opts = Absent \<or> binarize opts = Given True"
    and dims: "(W, H) = (if (upscale opts = Absent \<or> upscale opts = Given True)
                   \<and> (imgWidth img < 1500 \<or> imgHeight img < 1500)
                then (imgWidth img * 2, imgHeight img * 2) else (imgWidth img, imgHeight img))"
    and px: "getImageData env W H (drawImage env img W H) = Some data"
    and mem: "newInt32Array env (W * H)" "newUint8ClampedArray env (length data)"
  define cfg where "cfg = mkConfig (map_option PreprocessOptions.truncate (Some opts))"
  have c: "cfg_binarize cfg" "cfg_denoise cfg = (denoise opts = Given True)"
    "cfg_upscale cfg = (upscale opts = Absent \<or> upscale opts = Given True)"
    using b by (simp_all add: cfg_def config_of_options)
  have u: "upscaleDims cfg (imgWidth img) (imgHeight img) = (W, H)"
    unfolding dims by (simp add: upscaleDims_def c)
  have "preprocessImage env f (Some opts) =
      Resolved (DataURL (toDataURL env W H (runStages cfg data W H)))"
    using preprocessImage_loaded [OF load cfg_def u] mem
    by (simp add: px allocationFails_def c)
  then show "preprocessImage env f (Some opts) =
        Resolved (DataURL (toDataURL env W H
          (applyAdaptiveThreshold
             (if denoise opts = Given True then applyMedianFilter (grayscaleConvert data) W H
              else grayscaleConvert data) W H 41 15)))"
    by (simp add: runStages_def Let_def c)
qed

theorem no_config_validation_witness:
  "decode \<lparr>decode = (\<lambda>f. Some (Image 2 2 f)), getContext = True,
      drawImage = (\<lambda>img w h. replicate (4 * (w * h)) 128),
      readable = (\<lambda>w h. True), newInt32Array = (\<lambda>n. True),
      newUint8ClampedArray = (\<lambda>n. True),
      toDataURL = (\<lambda>w h d. map (\<lambda>b. if b = 255 then CHR ''W'' else CHR ''B'') d)\<rparr> [7]
     = Some (Image 2 2 [7]) \<and>
   binarize \<lparr>grayscale = Absent, binarize = Absent, denoise = Absent, upscale = Given False,
            \<dots> = [(''windowSize'', - 3 :: int)]\<rparr> = Absent \<and>
   preprocessImage
     \<lparr>decode = (\<lambda>f. Some (Image 2 2 f)), getContext = True,
      drawImage = (\<lambda>img w h. replicate (4 * (w * h)) 128),
      readable = (\<lambda>w h. True), newInt32Array = (\<lambda>n. True),
      newUint8ClampedArray = (\<lambda>n. True),
      toDataURL = (\<lambda>w h d. map (\<lambda>b. if b = 255 then CHR ''W'' else CHR ''B'') d)\<rparr> [7]
     (Some \<lparr>grayscale = Absent, binarize = Absent, denoise = Absent, upscale = Given False,
            \<dots> = [(''windowSize'', - 3 :: int)]\<rparr>)
     = Resolved (DataURL (replicate 16 (CHR ''W'')))"
proof -
  let ?env = "\<lparr>decode = (\<lambda>f. Some (Image 2 2 f)), getContext = True,
      drawImage = (\<lambda>img w h. replicate (4 * (w * h)) 128),
      readable = (\<lambda>w h. True), newInt32Array = (\<lambda>n. True),
      newUint8ClampedArray = (\<lambda>n. True),
      toDataURL = (\<lambda>w h d. map (\<lambda>b. if b = 255 then CHR ''W'' else CHR ''B'') d)\<rparr>"
  let ?opts = "\<lparr>grayscale = Absent, binarize = Absent, denoise = Absent, upscale = Given False,
            \<dots> = [(''windowSize'', - 3 :: int)]\<rparr>"
  have d: "decode ?env [7] = Some (Image 2 2 [7])" and g: "getContext ?env" by simp_all
  have b: "binarize ?opts = Absent \<or> binarize ?opts = Given True" by simp
  have dims: "(2, 2) = (if (upscale ?opts = Absent \<or> upscale ?opts = Given True)
                   \<and> (imgWidth (Image 2 2 [7]) < 1500 \<or> imgHeight (Image 2 2 [7]) < 1500)
                then (imgWidth (Image 2 2 [7]) * 2, imgHeight (Image 2 2 [7]) * 2)
                else (imgWidth (Image 2 2 [7]), imgHeight (Image 2 2 [7])))"
    by simp
  have rd: "getImageData ?env 2 2 (drawImage ?env (Image 2 2 [7]) 2 2) = Some (replicate 16 128)"
    by (simp add: getImageData_def)
  have m: "newInt32Array ?env (2 * 2)" "newUint8ClampedArray ?env (length (replicate 16 (128 :: u8)))"
    by simp_all
  have px: "applyAdaptiveThreshold (grayscaleConvert (replicate 16 128)) 2 2 41 15
      = replicate 16 255"
    by code_simp
  have "preprocessImage ?env [7] (Some ?opts) = Resolved (DataURL (replicate 16 (CHR ''W'')))"
    using no_config_validation [THEN conjunct2, THEN conjunct2, rule_format, OF d g b dims rd m]
    by (simp add: px)
  then show ?thesis using d by simp
qed




text \<open>
  C10: called without an options argument, preprocessImage runs with grayscale,
  binarize and upscale on and denoise off: the image is doubled when a dimension is below
  1500, reduced to gray and thresholded, and the median filter does not run. Called with
  an options object, every flag absent from it takes that default: the median filter
  runs only when \<open>denoise\<close> is given as true, and the grayscale conversion runs whenever
  binarize is on, also with \<open>grayscale\<close> given as false. (The image is taken as loaded,
  drawn and read back, and the arrays of the stages as allocated.)
\<close>

theorem option_defaults:
  "(\<forall>(env :: browser) f img W H data.
      decode env f = Some img \<longrightarrow> getContext env \<longrightarrow>
      (W, H) = (if imgWidth img < 1500 \<or> imgHeight img < 1500
                then (imgWidth img * 2, imgHeight img * 2) else (imgWidth img, imgHeight img)) \<longrightarrow>
      getImageData env W H (drawImage env img W H) = Some data \<longrightarrow>
      newInt32Array env (W * H) \<longrightarrow> newUint8ClampedArray env (length data) \<longrightarrow>
      preprocessImage env f (None :: PreprocessOptions option) =
        Resolved (DataURL (toDataURL env W H
          (applyAdaptiveThreshold (grayscaleConvert data) W H 41 15))))
   \<and> (\<forall>(env :: browser) f (opts :: PreprocessOptions) img G B D U W H data.
      decode env f = Some img \<longrightarrow> getContext env \<longrightarrow>
      G = (grayscale opts = Absent \<or> grayscale opts = Given True) \<longrightarrow>
      B = (binarize opts = Absent \<or> binarize opts = Given True) \<longrightarrow>
      D = (denoise opts = Given True) \<longrightarrow>
      U = (upscale opts = Absent \<or> upscale opts = Given True) \<longrightarrow>
      (W, H) = (if U \<and> (imgWidth img < 1500 \<or> imgHeight img < 1500)
                then (imgWidth img * 2, imgHeight img * 2) else (imgWidth img, imgHeight img)) \<longrightarrow>
      getImageData env W H (drawImage env img W H) = Some data \<longrightarrow>
      (D \<longrightarrow> newUint8ClampedArray env (length data)) \<longrightarrow>
      (B \<longrightarrow> newInt32Array env (W * H) \<and> newUint8ClampedArray env (length data)) \<longrightarrow>
      preprocessImage env f (Some opts) =
        Resolved (DataURL (toDataURL env W H
          (let gray = (if G \<or> B then grayscaleConvert data else data);
               smooth = (if D then applyMedianFilter gray W H else gray)
           in if B then applyAdaptiveThreshold smooth W H 41 15 else smooth))))"
proof (intro conjI allI impI)
  fix env :: browser and f :: bytes and img W H data
  assume load: "decode env f = Some img" "getContext env"
    and dims: "(W, H) = (if imgWidth img < 1500 \<or> imgHeight img < 1500
                then (imgWidth img * 2, imgHeight img * 2) else (imgWidth img, imgHeight img))"
    and px: "getImageData env W H (drawImage env img W H) = Some data"
    and mem: "newInt32Array env (W * H)" "newUint8ClampedArray env (length data)"
  define cfg where
    "cfg = mkConfig (map_option PreprocessOptions.truncate (None :: PreprocessOptions option))"
  have c: "cfg_grayscale cfg" "cfg_binarize cfg" "\<not> cfg_denoise cfg" "cfg_upscale cfg"
    by (simp_all add: cfg_def config_default)
  have u: "upscaleDims cfg (imgWidth img) (imgHeight img) = (W, H)"
    unfolding dims by (simp add: upscaleDims_def c)
  show "preprocessImage env f (None :: PreprocessOptions option) =
        Resolved (DataURL (toDataURL env W H
          (applyAdaptiveThreshold (grayscaleConvert data) W H 41 15)))"
    unfolding preprocessImage_loaded [OF load cfg_def u]
    using mem by (simp add: px allocationFails_def runStages_def Let_def c)
next
  fix env :: browser and f :: bytes and opts :: PreprocessOptions and img G B D U W H data
  assume load: "decode env f = Some img" "getContext env"
    and G: "G = (grayscale opts = Absent \<or> grayscale opts = Given True)"
    and B: "B = (binarize opts = Absent \<or> binarize opts = Given True)"
    and D: "D = (denoise opts = Given True)"
    and U: "U = (upscale opts = Absent \<or> upscale opts = Given True)"
    and dims: "(W, H) = (if U \<and> (imgWidth img < 1500 \<or> imgHeight img < 1500)
                then (imgWidth img * 2, imgHeight img * 2) else (imgWidth img, imgHeight img))"
    and px: "getImageData env W H (drawImage env img W H) = Some data"
    and memD: "D \<longrightarrow> newUint8ClampedArray env (length data)"
    and memB: "B \<longrightarrow> newInt32Array env (W * H) \<and> newUint8ClampedArray env (length data)"
  define cfg where "cfg = mkConfig (map_option PreprocessOptions.truncate (Some opts))"
  have c: "cfg_grayscale cfg = G" "cfg_binarize cfg = B" "cfg_denoise cfg = D" "cfg_upscale cfg = U"
    by (simp_all add: cfg_def config_of_options G B D U)
  have u: "upscaleDims cfg (imgWidth img) (imgHeight img) = (W, H)"
    unfolding dims by (simp add: upscaleDims_def c)
  have a: "\<not> allocationFails env cfg (length data) W H"
    using memD memB by (simp add: allocationFails_def c)
  show "preprocessImage env f (Some opts) =
        Resolved (DataURL (toDataURL env W H
          (let gray = (if G \<or> B then grayscaleConvert data else data);
               smooth = (if D then applyMedianFilter gray W H else gray)
           in if B then applyAdaptiveThreshold smooth W H 41 15 else smooth)))"
    unfolding preprocessImage_loaded [OF load cfg_def u]
    by (simp add: px a runStages_def Let_def c)
qed

theorem option_defaults_witness:
  "decode \<lparr>decode = (\<lambda>f. Some (Image 2 2 f)), getContext = True,
      drawImage = (\<lambda>img w h. [0, 255, 0, 255, 100, 0, 0, 255, 0, 255, 0, 255, 100, 0, 0, 255]),
      readable = (\<lambda>w h. True), newInt32Array = (\<lambda>n. True),
      newUint8ClampedArray = (\<lambda>n. True),
      toDataURL = (\<lambda>w h d. map (\<lambda>b. if b = 255 then CHR ''W'' else CHR ''B'') d)\<rparr> [5]
     = Some (Image 2 2 [5]) \<and>
   applyAdaptiveThreshold [0, 255, 0, 255, 100, 0, 0, 255, 0, 255, 0, 255, 100, 0, 0, 255] 2 2 41 15
     = [0, 0, 0, 255, 255, 255, 255, 255, 0, 0, 0, 255, 255, 255, 255, 255] \<and>
   applyAdaptiveThreshold (grayscaleConvert [0, 255, 0, 255, 100, 0, 0, 255, 0, 255, 0, 255, 100, 0, 0, 255]) 2 2 41 15
     = [255, 255, 255, 255, 0, 0, 0, 255, 255, 255, 255, 255, 0, 0, 0, 255] \<and>
   preprocessImage
     \<lparr>decode = (\<lambda>f. Some (Image 2 2 f)), getContext = True,
      drawImage = (\<lambda>img w h. [0, 255, 0, 255, 100, 0, 0, 255, 0, 255, 0, 255, 100, 0, 0, 255]),
      readable = (\<lambda>w h. True), newInt32Array = (\<lambda>n. True),
      newUint8ClampedArray = (\<lambda>n. True),
      toDataURL = (\<lambda>w h d. map (\<lambda>b. if b = 255 then CHR ''W'' else CHR ''B'') d)\<rparr> [5]
     (Some \<lparr>grayscale = Given False, binarize = Absent, denoise = Absent, upscale = Given False\<rparr>)
     = Resolved (DataURL ''WWWWBBBWWWWWBBBW'')"
proof -
  let ?env = "\<lparr>decode = (\<lambda>f. Some (Image 2 2 f)), getContext = True,
      drawImage = (\<lambda>img w h. [0, 255, 0, 255, 100, 0, 0, 255, 0, 255, 0, 255, 100, 0, 0, 255]),
      readable = (\<lambda>w h. True), newInt32Array = (\<lambda>n. True),
      newUint8ClampedArray = (\<lambda>n. True),
      toDataURL = (\<lambda>w h d. map (\<lambda>b. if b = 255 then CHR ''W'' else CHR ''B'') d)\<rparr>"
  let ?opts = "\<lparr>grayscale = Given False, binarize = Absent, denoise = Absent, upscale = Given False\<rparr>"
  have d: "decode ?env [5] = Some (Image 2 2 [5])" and g: "getContext ?env" by simp_all
  have G: "False = (grayscale ?opts = Absent \<or> grayscale ?opts = Given True)" by simp
  have B: "True = (binarize ?opts = Absent \<or> binarize ?opts = Given True)" by simp
  have D: "False = (denoise ?opts = Given True)" by simp
  have U: "False = (upscale ?opts = Absent \<or> upscale ?opts = Given True)" by simp
  have dims: "(2, 2) = (if False \<and> (imgWidth (Image 2 2 [5]) < 1500 \<or> imgHeight (Image 2 2 [5]) < 1500)
                then (imgWidth (Image 2 2 [5]) * 2, imgHeight (Image 2 2 [5]) * 2)
                else (imgWidth (Image 2 2 [5]), imgHeight (Image 2 2 [5])))"
    by simp
  have rd: "getImageData ?env 2 2 (drawImage ?env (Image 2 2 [5]) 2 2)
      = Some [0, 255, 0, 255, 100, 0, 0, 255, 0, 255, 0, 255, 100, 0, 0, 255]"
    by (simp add: getImageData_def)
  have mD: "newUint8ClampedArray ?env (length [0, 255, 0, 255, 100, 0, 0, 255, 0, 255, 0, 255, 100, 0, 0, 255 :: u8])"
    if False using that by simp
  have mB: "newInt32Array ?env (2 * 2) \<and>
      newUint8ClampedArray ?env (length [0, 255, 0, 255, 100, 0, 0, 255, 0, 255, 0, 255, 100, 0, 0, 255 :: u8])"
    if True by simp
  have raw: "applyAdaptiveThreshold [0, 255, 0, 255, 100, 0, 0, 255, 0, 255, 0, 255, 100, 0, 0, 255] 2 2 41 15
      = [0, 0, 0, 255, 255, 255, 255, 255, 0, 0, 0, 255, 255, 255, 255, 255]"
    by code_simp
  have px: "applyAdaptiveThreshold (grayscaleConvert [0, 255, 0, 255, 100, 0, 0, 255, 0, 255, 0, 255, 100, 0, 0, 255]) 2 2 41 15
      = [255, 255, 255, 255, 0, 0, 0, 255, 255, 255, 255, 255, 0, 0, 0, 255]"
    by code_simp
  have "preprocessImage ?env [5] (Some ?opts) = Resolved (DataURL ''WWWWBBBWWWWWBBBW'')"
    using option_defaults [THEN conjunct2, rule_format, OF d g G B D U dims rd mD mB]
    by (simp add: px)
  then show ?thesis using d raw px by simp
qed

text \<open>
  The default pipeline on a white page of 3000 by 3000 pixels, which is not upscaled:
  the promise resolves with the encoding of a canvas in which pixel \<open>(2902, 2902)\<close> is
  black, because the cells of the integral image around it have wrapped.
\<close>

lemma white_page_black_pixel:
  assumes "decode env f = Some (Image 3000 3000 px)" "getContext env"
    and "drawImage env (Image 3000 3000 px) 3000 3000 = replicate (4 * (3000 * 3000)) 255"
    and "readable env 3000 3000" "newInt32Array env (3000 * 3000)" "newUint8ClampedArray env (4 * (3000 * 3000))"
  shows "\<exists>out. preprocessImage env f (None :: PreprocessOptions option)
             = Resolved (DataURL (toDataURL env 3000 3000 out))
           \<and> out ! ((2902 * 3000 + 2902) * 4) = 0"
proof -
  define d :: "u8 list" where "d = replicate (4 * (3000 * 3000)) 255"
  define cfg where
    "cfg = mkConfig (map_option PreprocessOptions.truncate (None :: PreprocessOptions option))"
  have c: "cfg_grayscale cfg" "cfg_binarize cfg" "\<not> cfg_denoise cfg" "cfg_upscale cfg"
    by (simp_all add: cfg_def config_default)
  have u: "upscaleDims cfg (imgWidth (Image 3000 3000 px)) (imgHeight (Image 3000 3000 px))
      = (3000, 3000)"
    by (simp add: upscaleDims_def)
  have rd: "getImageData env 3000 3000 (drawImage env (Image 3000 3000 px) 3000 3000) = Some d"
    using assms(3,4) by (simp add: getImageData_def d_def)
  have len: "length d = 4 * (3000 * 3000)" by (simp add: d_def)
  have a: "\<not> allocationFails env cfg (length d) 3000 3000"
    using assms(5,6) unfolding len by (simp add: allocationFails_def c)
  have "runStages cfg d 3000 3000 = applyAdaptiveThreshold d 3000 3000 41 15"
    using grayscaleConvert_white [of "3000 * 3000"]
    by (simp add: runStages_def Let_def c d_def)
  moreover have "applyAdaptiveThreshold d 3000 3000 41 15 ! ((2902 * 3000 + 2902) * 4) = 0"
    using white_page_threshold [of 0] by (simp add: d_def)
  moreover have "preprocessImage env f (None :: PreprocessOptions option)
      = Resolved (DataURL (toDataURL env 3000 3000 (runStages cfg d 3000 3000)))"
    unfolding preprocessImage_loaded [OF assms(1,2) cfg_def u] by (simp add: rd a)
  ultimately show ?thesis by auto
qed

end
